theory Spec2Isabelle
  imports Main "HOL-Library.Multiset"
begin

section \<open>Data model (point.model.ts, as used by point.service.ts)\<close>

text \<open>
  Amounts, user ids and millisecond timestamps are JavaScript numbers that the
  service only adds, subtracts and compares.  The model has the numbers that
  hold an integer (the values the controller's \<^verbatim>\<open>ParseIntPipe\<close> and the
  clock deliver), as integers, with the sum and the difference of the number
  type (next section).  The field \<^verbatim>\<open>id\<close> of \<^verbatim>\<open>UserPoint\<close> and
  of \<^verbatim>\<open>PointHistory\<close> is written \<open>uid\<close> and \<open>hid\<close>, the
  field \<^verbatim>\<open>type\<close> is written \<open>ttype\<close>.
\<close>

datatype TransactionType = CHARGE | USE

record UserPoint =
  uid :: int
  point :: int
  updateMillis :: int

record PointHistory =
  hid :: nat
  userId :: int
  amount :: int
  ttype :: TransactionType
  timeMillis :: int

text \<open>
  The three messages of the \<^verbatim>\<open>BadRequestException\<close>s thrown by the service
  (charge amount not positive, use amount not positive, not enough points), and
  the plain \<^verbatim>\<open>Error\<close> of the lock manager, which carries the key.
\<close>

datatype message = ChargeAmountNotPositive | UseAmountNotPositive | PointInsufficient

datatype error = BadRequestException message | LockTimeout string

section \<open>Sums and differences of numbers\<close>

text \<open>
  A number is a double.  It holds every integer up to
  \<open>2\<^sup>5\<^sup>3 = 9007199254740992\<close> in magnitude, and of the integers beyond
  only those of 53 significant bits: the neighbours of a number of magnitude
  \<open>x\<close> above \<open>2\<^sup>5\<^sup>3\<close> are \<open>ulp x\<close> apart, which is 2 up to
  \<open>2\<^sup>5\<^sup>4\<close>, 4 up to \<open>2\<^sup>5\<^sup>5\<close>, and so on.  \<^verbatim>\<open>a + b\<close> and
  \<^verbatim>\<open>a - b\<close> are the number nearest to the exact sum or difference, and
  of two nearest numbers the one with the even significand; \<open>round53\<close>
  is that rounding.  So \<^verbatim>\<open>9007199254740992 + 1\<close> is
  \<^verbatim>\<open>9007199254740992\<close>.

  From \<open>2\<^sup>1\<^sup>0\<^sup>2\<^sup>4\<close> on the code has \<^verbatim>\<open>Infinity\<close>, which is no
  integer; the model has integers only and does not follow the code there.
  The theorems for the claims state the value of an amount that the service
  computes only where it is at most \<open>2\<^sup>5\<^sup>3\<close> in magnitude, where the
  sum and the difference are exact.
\<close>

function ulp :: "int \<Rightarrow> int" where
  "ulp x = (if x < 9007199254740992 then 1 else 2 * ulp (x div 2))"
  by auto
termination
  by (relation "measure nat") auto

declare ulp.simps [simp del]

definition round53 :: "int \<Rightarrow> int" where
  "round53 x =
     (if \<bar>x\<bar> \<le> 9007199254740992 then x
      else
        let u = ulp \<bar>x\<bar>;
            q = \<bar>x\<bar> div u;
            r = \<bar>x\<bar> mod u;
            m = (if u < 2 * r \<or> (2 * r = u \<and> odd q) then q + 1 else q)
        in sgn x * (m * u))"

definition js_add :: "int \<Rightarrow> int \<Rightarrow> int" where
  "js_add a b = round53 (a + b)"

definition js_sub :: "int \<Rightarrow> int \<Rightarrow> int" where
  "js_sub a b = round53 (a - b)"

section \<open>The two tables\<close>

type_synonym UserPointTable = "int \<rightharpoonup> UserPoint"
type_synonym PointHistoryTable = "PointHistory list"

record db =
  userPointTable :: UserPointTable
  pointHistoryTable :: PointHistoryTable

text \<open>
  Modelled from the spec: \<^verbatim>\<open>UserPointTable.selectById\<close> is not part of the
  sources; the balance store's \<^verbatim>\<open>get\<close> returns the stored record, and a
  zero-value record (amount 0) for a user that has none, and never fails.  The
  time stamp of that fresh record is the store's own clock reading \<open>now\<close>.
\<close>

definition selectById :: "UserPointTable \<Rightarrow> int \<Rightarrow> int \<Rightarrow> UserPoint" where
  "selectById tbl now i =
     (case tbl i of
        Some up \<Rightarrow> up
      | None \<Rightarrow> \<lparr>uid = i, point = 0, updateMillis = now\<rparr>)"

text \<open>
  Modelled from the spec: \<^verbatim>\<open>UserPointTable.insertOrUpdate\<close> is not part of
  the sources; the balance store's \<^verbatim>\<open>put\<close> replaces the record of the
  user.  The service passes the user and the amount only, the time stamp
  \<open>now\<close> is the store's own clock reading.
\<close>

definition insertOrUpdate :: "UserPointTable \<Rightarrow> int \<Rightarrow> int \<Rightarrow> int \<Rightarrow> UserPointTable" where
  "insertOrUpdate tbl now i a = tbl(i \<mapsto> \<lparr>uid = i, point = a, updateMillis = now\<rparr>)"

text \<open>
  Modelled from the spec: \<^verbatim>\<open>PointHistoryTable.insert\<close> is not part of the
  sources; the history store is an append-only log in insertion order.  The id
  of an entry is opaque; the model numbers the entries in insertion order.
\<close>

definition insert_history ::
  "PointHistoryTable \<Rightarrow> int \<Rightarrow> int \<Rightarrow> TransactionType \<Rightarrow> int \<Rightarrow> PointHistoryTable" where
  "insert_history tbl u a ty t =
     tbl @ [\<lparr>hid = Suc (length tbl), userId = u, amount = a, ttype = ty, timeMillis = t\<rparr>]"

text \<open>
  Modelled from the spec: \<^verbatim>\<open>PointHistoryTable.selectAllByUserId\<close> is not
  part of the sources; it lists the entries of the user, in an order that the
  spec leaves open.  That order is the parameter \<open>listing\<close>: what the
  store makes of the entries of the user, taken from the log in the order of
  insertion.  A store that lists in the order of insertion has the identity for
  \<open>listing\<close>, one that lists the latest insertion first has
  \<^const>\<open>rev\<close>.
\<close>

definition selectAllByUserId ::
  "(PointHistory list \<Rightarrow> PointHistory list) \<Rightarrow> PointHistoryTable \<Rightarrow> int \<Rightarrow> PointHistory list" where
  "selectAllByUserId listing tbl u = listing (filter (\<lambda>h. userId h = u) tbl)"

section \<open>The service operations, run without interference\<close>

text \<open>
  The closures that \<^verbatim>\<open>chargePoint\<close> and \<^verbatim>\<open>usePoint\<close> hand to the lock
  manager (point.service.ts, lines 29 to 51 and 58 to 85), as functions of the
  tables.  \<open>t0\<close> is the clock of the store when it answers
  \<^verbatim>\<open>selectById\<close>, \<open>t1\<close> the value of \<^verbatim>\<open>Date.now()\<close> read by the
  closure, \<open>t2\<close> the clock of the store when it performs
  \<^verbatim>\<open>insertOrUpdate\<close>.  The result pairs what the closure returns
  (an exception is the left summand) with the tables as it leaves them.
\<close>

definition chargePoint_op ::
  "db \<Rightarrow> int \<Rightarrow> int \<Rightarrow> int \<Rightarrow> int \<Rightarrow> int \<Rightarrow> (error + UserPoint) \<times> db" where
  "chargePoint_op d u a t0 t1 t2 =
     (if a \<le> 0 then (Inl (BadRequestException ChargeAmountNotPositive), d)
      else
        let userPoint = selectById (userPointTable d) t0 u;
            chargedPoint = js_add (point userPoint) a;
            updateTime = t1;
            d1 = d\<lparr>userPointTable := insertOrUpdate (userPointTable d) t2 u chargedPoint\<rparr>;
            d2 = d1\<lparr>pointHistoryTable :=
                      insert_history (pointHistoryTable d1) u a CHARGE updateTime\<rparr>
        in (Inr \<lparr>uid = u, point = chargedPoint, updateMillis = updateTime\<rparr>, d2))"

definition usePoint_op ::
  "db \<Rightarrow> int \<Rightarrow> int \<Rightarrow> int \<Rightarrow> int \<Rightarrow> int \<Rightarrow> (error + UserPoint) \<times> db" where
  "usePoint_op d u a t0 t1 t2 =
     (if a \<le> 0 then (Inl (BadRequestException UseAmountNotPositive), d)
      else
        let userPoint = selectById (userPointTable d) t0 u
        in if point userPoint < a then (Inl (BadRequestException PointInsufficient), d)
           else
             let usedPoint = js_sub (point userPoint) a;
                 updateTime = t1;
                 d1 = d\<lparr>userPointTable := insertOrUpdate (userPointTable d) t2 u usedPoint\<rparr>;
                 d2 = d1\<lparr>pointHistoryTable :=
                           insert_history (pointHistoryTable d1) u a USE updateTime\<rparr>
             in (Inr \<lparr>uid = u, point = usedPoint, updateMillis = updateTime\<rparr>, d2))"

text \<open>
  \<^verbatim>\<open>Array.prototype.sort\<close> with a comparator is a stable sort: an
  element \<open>x\<close> comes before an element \<open>y\<close> when the comparator
  gives a negative number for them, after it when the comparator gives a
  positive number, and the two keep their order when it gives 0.  For a
  comparator that is consistent, as the one of the service is, every stable
  sort returns the same list; the model is the insertion sort.
\<close>

fun insert_cmp :: "('a \<Rightarrow> 'a \<Rightarrow> int) \<Rightarrow> 'a \<Rightarrow> 'a list \<Rightarrow> 'a list" where
  "insert_cmp cmp x [] = [x]"
| "insert_cmp cmp x (y # ys) = (if cmp x y \<le> 0 then x # y # ys else y # insert_cmp cmp x ys)"

definition sort_cmp :: "('a \<Rightarrow> 'a \<Rightarrow> int) \<Rightarrow> 'a list \<Rightarrow> 'a list" where
  "sort_cmp cmp xs = foldr (insert_cmp cmp) xs []"

text \<open>\<^verbatim>\<open>getUserPoint\<close> and \<^verbatim>\<open>getPointHistories\<close> take no lock.  The
  latter sorts what the store lists with the comparator
  \<^verbatim>\<open>(a, b) => b.timeMillis - a.timeMillis\<close>.\<close>

definition getUserPoint :: "db \<Rightarrow> int \<Rightarrow> int \<Rightarrow> UserPoint" where
  "getUserPoint d now u = selectById (userPointTable d) now u"

definition getPointHistories ::
  "(PointHistory list \<Rightarrow> PointHistory list) \<Rightarrow> db \<Rightarrow> int \<Rightarrow> PointHistory list" where
  "getPointHistories listing d u =
     (let histories = selectAllByUserId listing (pointHistoryTable d) u
      in sort_cmp (\<lambda>a b. js_sub (timeMillis b) (timeMillis a)) histories)"

text \<open>The stored balance of a user: what a read of the balance store shows.\<close>

definition balance :: "db \<Rightarrow> int \<Rightarrow> int" where
  "balance d u = point (selectById (userPointTable d) 0 u)"

text \<open>Either closure, by the kind of transaction.\<close>

definition operation ::
  "TransactionType \<Rightarrow> db \<Rightarrow> int \<Rightarrow> int \<Rightarrow> int \<Rightarrow> int \<Rightarrow> int \<Rightarrow> (error + UserPoint) \<times> db" where
  "operation k = (case k of CHARGE \<Rightarrow> chargePoint_op | USE \<Rightarrow> usePoint_op)"

text \<open>
  A request is a kind, a user, an amount and the three clock readings; a
  sequence of requests runs one after the other, a rejected request leaving
  the tables as they are.
\<close>

type_synonym request = "TransactionType \<times> int \<times> int \<times> int \<times> int \<times> int"

definition run_request :: "db \<Rightarrow> request \<Rightarrow> db" where
  "run_request d r = (case r of (k, u, a, t0, t1, t2) \<Rightarrow> snd (operation k d u a t0 t1 t2))"

definition empty_db :: db where
  "empty_db = \<lparr>userPointTable = Map.empty, pointHistoryTable = []\<rparr>"

section \<open>The lock manager and the calls in flight\<close>

subsection \<open>Keys\<close>

text \<open>
  The key of a user is the template string \<^verbatim>\<open>`user:${userId}`\<close>: the
  decimal digits of the integer, after a minus sign when it is negative.  (From
  \<open>10\<^sup>2\<^sup>1\<close> on the code writes the number with an exponent; that too
  is one string for each number, and all that is used of keys below is that
  the keys of two users differ.)
\<close>

definition digit :: "nat \<Rightarrow> char" where
  "digit n = ''0123456789'' ! n"

fun digits :: "nat \<Rightarrow> string" where
  "digits n = (if n < 10 then [digit n] else digits (n div 10) @ [digit (n mod 10)])"

declare digits.simps [simp del]

definition show_int :: "int \<Rightarrow> string" where
  "show_int i = (if i < 0 then CHR ''-'' # digits (nat (- i)) else digits (nat i))"

definition user_key :: "int \<Rightarrow> string" where
  "user_key u = ''user:'' @ show_int u"

subsection \<open>State\<close>

text \<open>
  Node runs one task at a time and switches tasks at an \<^verbatim>\<open>await\<close> only.
  A call of \<^verbatim>\<open>chargePoint\<close> or \<^verbatim>\<open>usePoint\<close> is therefore a sequence
  of atomic segments, and \<open>pc\<close> says at which \<^verbatim>\<open>await\<close> the call is
  suspended, with the local variables that are live there:
  \<^item> \<open>Start\<close>: the call has not been made yet;
  \<^item> \<open>Waiting maxWaitTime p\<close>: in \<^verbatim>\<open>await this.locks.get(key)\<close>
    (memory-lock.manager.ts, line 22), \<open>p\<close> the promise found in the map;
  \<^item> \<open>Selecting p\<close>: the lock is taken with the promise \<open>p\<close> of this
    call, the closure is in \<^verbatim>\<open>await this.userPointTable.selectById\<close>;
  \<^item> \<open>Putting p newPoint updateTime\<close>: in
    \<^verbatim>\<open>await this.userPointTable.insertOrUpdate\<close>;
  \<^item> \<open>Inserting p newPoint updateTime\<close>: in
    \<^verbatim>\<open>await this.pointHistoryTable.insert\<close>;
  \<^item> \<open>Finishing p r\<close>: the closure has returned or thrown \<open>r\<close>, the
    lock manager is in \<^verbatim>\<open>await operation()\<close> (line 38), before its
    \<^verbatim>\<open>finally\<close> block;
  \<^item> \<open>Done r\<close>: the call is settled with \<open>r\<close>.

  A table performs its read or write when the call that awaits it is resumed.
\<close>

type_synonym promise = nat
type_synonym timer = nat

datatype pc =
    Start
  | Waiting int promise
  | Selecting promise
  | Putting promise int int
  | Inserting promise int int
  | Finishing promise "error + UserPoint"
  | Done "error + UserPoint"

text \<open>
  A call of \<^verbatim>\<open>withLock\<close> as the service makes it: the key is that of
  \<open>user\<close>, the operation is the closure of \<open>kind\<close> for the amount
  \<open>amt\<close>, and \<open>timeoutMs\<close> is the one time parameter of
  \<^verbatim>\<open>withLock\<close>.
\<close>

record call =
  kind :: TransactionType
  user :: int
  amt :: int
  timeoutMs :: int
  pc :: pc

text \<open>
  The state of the process: the two tables, the two maps of the lock manager
  (\<^verbatim>\<open>locks\<close> from keys to promises, \<^verbatim>\<open>timeouts\<close> from keys to
  timer handles), the timers of the event loop that are armed (with the time
  they are due at and the key and the promise their callback closes over), the
  promises that are resolved, the numbers of promises and timers created so
  far, the clock behind \<^verbatim>\<open>Date.now()\<close>, and the calls.
\<close>

record sys =
  tables :: db
  locks :: "string \<rightharpoonup> promise"
  timeouts :: "string \<rightharpoonup> timer"
  timers :: "timer \<rightharpoonup> int \<times> string \<times> promise"
  resolved :: "promise set"
  promises :: nat
  timerCount :: nat
  clock :: int
  calls :: "call list"

text \<open>Node's \<^verbatim>\<open>setTimeout\<close> takes a delay below 1 or above
  \<open>2\<^sup>3\<^sup>1 - 1\<close> as 1.\<close>

definition setTimeout_delay :: "int \<Rightarrow> int" where
  "setTimeout_delay ms = (if ms < 1 \<or> 2147483647 < ms then 1 else ms)"

definition set_pc :: "sys \<Rightarrow> nat \<Rightarrow> pc \<Rightarrow> sys" where
  "set_pc s i q = s\<lparr>calls := (calls s)[i := (calls s ! i)\<lparr>pc := q\<rparr>]\<rparr>"

subsection \<open>The segments of a call\<close>

definition invalid_amount :: "TransactionType \<Rightarrow> error" where
  "invalid_amount k =
     (case k of CHARGE \<Rightarrow> BadRequestException ChargeAmountNotPositive
              | USE \<Rightarrow> BadRequestException UseAmountNotPositive)"

text \<open>
  Lines 26 to 38 of memory-lock.manager.ts, run once the key is found free: the
  promise of the call goes into \<^verbatim>\<open>locks\<close>, a timer is armed for
  \<^verbatim>\<open>timeoutMs\<close> and its handle goes into \<^verbatim>\<open>timeouts\<close>, and the
  operation is called.  The closure runs up to its first \<^verbatim>\<open>await\<close>: it
  throws on an amount that is not positive (point.service.ts, lines 30 and 59)
  and calls \<^verbatim>\<open>selectById\<close> otherwise.
\<close>

definition acquire :: "sys \<Rightarrow> nat \<Rightarrow> sys" where
  "acquire s i =
     (let c = calls s ! i;
          key = user_key (user c);
          lockPromise = promises s;
          timeout = timerCount s;
          s1 = s\<lparr>locks := (locks s)(key \<mapsto> lockPromise), promises := Suc lockPromise\<rparr>;
          s2 = s1\<lparr>timers := (timers s1)
                      (timeout \<mapsto> (clock s1 + setTimeout_delay (timeoutMs c), key, lockPromise)),
                  timerCount := Suc timeout\<rparr>;
          s3 = s2\<lparr>timeouts := (timeouts s2)(key \<mapsto> timeout)\<rparr>
      in if amt c \<le> 0 then set_pc s3 i (Finishing lockPromise (Inl (invalid_amount (kind c))))
         else set_pc s3 i (Selecting lockPromise))"

text \<open>
  One test of the loop of lines 18 to 23, and what follows it without an
  \<^verbatim>\<open>await\<close> in between: with the key in \<^verbatim>\<open>locks\<close> the call
  throws when the clock is past \<open>maxWaitTime\<close> and awaits the promise of
  the map otherwise; with the key free it goes on to line 26.
\<close>

definition loop_check :: "sys \<Rightarrow> nat \<Rightarrow> int \<Rightarrow> sys" where
  "loop_check s i maxWaitTime =
     (let key = user_key (user (calls s ! i))
      in case locks s key of
           Some p \<Rightarrow>
             if clock s > maxWaitTime then set_pc s i (Done (Inl (LockTimeout key)))
             else set_pc s i (Waiting maxWaitTime p)
         | None \<Rightarrow> acquire s i)"

text \<open>
  The closure resumed after \<^verbatim>\<open>selectById\<close> (point.service.ts, lines 34
  to 38 and 63 to 72): it computes the new amount from the record read, reads
  \<^verbatim>\<open>Date.now()\<close> and calls \<^verbatim>\<open>insertOrUpdate\<close>; \<^verbatim>\<open>usePoint\<close>
  throws when the record has less than the amount.
\<close>

definition selected :: "sys \<Rightarrow> nat \<Rightarrow> promise \<Rightarrow> sys" where
  "selected s i p =
     (let c = calls s ! i;
          userPoint = selectById (userPointTable (tables s)) (clock s) (user c)
      in case kind c of
           CHARGE \<Rightarrow> set_pc s i (Putting p (js_add (point userPoint) (amt c)) (clock s))
         | USE \<Rightarrow>
             if point userPoint < amt c
             then set_pc s i (Finishing p (Inl (BadRequestException PointInsufficient)))
             else set_pc s i (Putting p (js_sub (point userPoint) (amt c)) (clock s)))"

text \<open>The closure resumed after \<^verbatim>\<open>insertOrUpdate\<close>: the table has the
  new amount, and the closure calls \<^verbatim>\<open>pointHistoryTable.insert\<close>.\<close>

definition put_done :: "sys \<Rightarrow> nat \<Rightarrow> promise \<Rightarrow> int \<Rightarrow> int \<Rightarrow> sys" where
  "put_done s i p newPoint updateTime =
     (let c = calls s ! i;
          d = tables s;
          s1 = s\<lparr>tables := d\<lparr>userPointTable :=
                   insertOrUpdate (userPointTable d) (clock s) (user c) newPoint\<rparr>\<rparr>
      in set_pc s1 i (Inserting p newPoint updateTime))"

text \<open>The closure resumed after \<^verbatim>\<open>insert\<close>: the log has the entry, and
  the closure returns the new record (lines 46 to 50 and 80 to 84).\<close>

definition inserted :: "sys \<Rightarrow> nat \<Rightarrow> promise \<Rightarrow> int \<Rightarrow> int \<Rightarrow> sys" where
  "inserted s i p newPoint updateTime =
     (let c = calls s ! i;
          d = tables s;
          s1 = s\<lparr>tables := d\<lparr>pointHistoryTable :=
                   insert_history (pointHistoryTable d) (user c) (amt c) (kind c) updateTime\<rparr>\<rparr>
      in set_pc s1 i
           (Finishing p (Inr \<lparr>uid = user c, point = newPoint, updateMillis = updateTime\<rparr>)))"

text \<open>\<^verbatim>\<open>clearTimeout\<close> disarms the timer of a handle, and does nothing
  for \<^verbatim>\<open>undefined\<close> or for a timer that has fired.\<close>

definition clearTimeout ::
  "(timer \<rightharpoonup> int \<times> string \<times> promise) \<Rightarrow> timer option \<Rightarrow> (timer \<rightharpoonup> int \<times> string \<times> promise)" where
  "clearTimeout tms t = (case t of None \<Rightarrow> tms | Some tm \<Rightarrow> tms(tm := None))"

text \<open>
  The \<^verbatim>\<open>finally\<close> block of \<^verbatim>\<open>withLock\<close> (lines 39 to 45): it clears
  the timer that \<^verbatim>\<open>timeouts\<close> has for the key, deletes the key from both
  maps and resolves the promise of this call; the call then settles with the
  outcome of the operation.
\<close>

definition finally_block :: "sys \<Rightarrow> nat \<Rightarrow> promise \<Rightarrow> error + UserPoint \<Rightarrow> sys" where
  "finally_block s i p r =
     (let key = user_key (user (calls s ! i));
          s1 = s\<lparr>timers := clearTimeout (timers s) (timeouts s key)\<rparr>;
          s2 = s1\<lparr>timeouts := (timeouts s1)(key := None)\<rparr>;
          s3 = s2\<lparr>locks := (locks s2)(key := None)\<rparr>;
          s4 = s3\<lparr>resolved := insert p (resolved s3)\<rparr>
      in set_pc s4 i (Done r))"

text \<open>
  The next segment of call \<open>i\<close>.  A call that has not started computes
  \<open>maxWaitTime\<close> (line 16) and enters the loop; a waiting call can go on
  once the promise it awaits is resolved; a settled call has no segment left.
\<close>

definition run_call :: "sys \<Rightarrow> nat \<Rightarrow> sys option" where
  "run_call s i =
     (case pc (calls s ! i) of
        Start \<Rightarrow> Some (loop_check s i (js_add (clock s) (timeoutMs (calls s ! i))))
      | Waiting maxWaitTime p \<Rightarrow>
          if p \<in> resolved s then Some (loop_check s i maxWaitTime) else None
      | Selecting p \<Rightarrow> Some (selected s i p)
      | Putting p newPoint updateTime \<Rightarrow> Some (put_done s i p newPoint updateTime)
      | Inserting p newPoint updateTime \<Rightarrow> Some (inserted s i p newPoint updateTime)
      | Finishing p r \<Rightarrow> Some (finally_block s i p r)
      | Done r \<Rightarrow> None)"

subsection \<open>Events and runs\<close>

text \<open>
  The callback of the timer armed in line 31: it deletes the key from
  \<^verbatim>\<open>locks\<close> and resolves the promise of the call that armed it.  A timer
  fires once, and not before it is due.
\<close>

definition fire :: "sys \<Rightarrow> timer \<Rightarrow> sys option" where
  "fire s tm =
     (case timers s tm of
        None \<Rightarrow> None
      | Some (due, key, p) \<Rightarrow>
          if clock s < due then None
          else Some (s\<lparr>timers := (timers s)(tm := None),
                       locks := (locks s)(key := None),
                       resolved := insert p (resolved s)\<rparr>))"

text \<open>
  What the event loop does next: it runs the next segment of a call, fires a
  timer, or lets time pass.  An event that cannot happen in the state gives
  \<open>None\<close>.  A run is a list of events.
\<close>

datatype event = Run nat | Fire timer | Tick nat

fun step :: "event \<Rightarrow> sys \<Rightarrow> sys option" where
  "step (Run i) s = (if i < length (calls s) then run_call s i else None)"
| "step (Fire tm) s = fire s tm"
| "step (Tick n) s = Some (s\<lparr>clock := clock s + int n\<rparr>)"

fun exec :: "event list \<Rightarrow> sys \<Rightarrow> sys option" where
  "exec [] s = Some s"
| "exec (e # es) s = (case step e s of None \<Rightarrow> None | Some s' \<Rightarrow> exec es s')"

text \<open>
  The calls: \<^verbatim>\<open>withLock\<close> with its time parameter, and the two methods
  of the service, which leave the parameter at its default of 5000.
\<close>

definition withLock :: "TransactionType \<Rightarrow> int \<Rightarrow> int \<Rightarrow> int \<Rightarrow> call" where
  "withLock k u a ms = \<lparr>kind = k, user = u, amt = a, timeoutMs = ms, pc = Start\<rparr>"

definition chargePoint :: "int \<Rightarrow> int \<Rightarrow> call" where
  "chargePoint u a = withLock CHARGE u a 5000"

definition usePoint :: "int \<Rightarrow> int \<Rightarrow> call" where
  "usePoint u a = withLock USE u a 5000"

text \<open>The process with empty lock maps, no timer armed, and calls yet to be made.\<close>

definition init :: "db \<Rightarrow> int \<Rightarrow> call list \<Rightarrow> sys" where
  "init d now cs =
     \<lparr>tables = d, locks = Map.empty, timeouts = Map.empty, timers = Map.empty,
      resolved = {}, promises = 0, timerCount = 0, clock = now, calls = cs\<rparr>"

section \<open>What a run shows\<close>

text \<open>
  What an accepted call adds to the balance of its user, the sum of that over
  the calls of a user (charges minus uses), whether a call is settled with a
  record, and whether a timer fires in a run.
\<close>

definition signed :: "call \<Rightarrow> int" where
  "signed c = (case kind c of CHARGE \<Rightarrow> amt c | USE \<Rightarrow> - amt c)"

definition requested :: "int \<Rightarrow> call list \<Rightarrow> int" where
  "requested u cs = (\<Sum>c\<leftarrow>filter (\<lambda>c. user c = u) cs. signed c)"

definition accepted :: "call \<Rightarrow> bool" where
  "accepted c = (case pc c of Done (Inr r) \<Rightarrow> True | _ \<Rightarrow> False)"

definition hold_timeout_fires :: "event list \<Rightarrow> bool" where
  "hold_timeout_fires es = list_ex (\<lambda>e. case e of Fire tm \<Rightarrow> True | _ \<Rightarrow> False) es"

section \<open>The invariant of runs in which no timer fires\<close>

text \<open>
  A call is inside its critical section from the moment it has put its promise
  into \<^verbatim>\<open>locks\<close> until its \<^verbatim>\<open>finally\<close> block has run; it has
  written once \<^verbatim>\<open>insertOrUpdate\<close> is done.
\<close>

fun inCS :: "pc \<Rightarrow> bool" where
  "inCS (Selecting p) = True"
| "inCS (Putting p n t) = True"
| "inCS (Inserting p n t) = True"
| "inCS (Finishing p r) = True"
| "inCS q = False"

fun wrote :: "pc \<Rightarrow> bool" where
  "wrote (Inserting p n t) = True"
| "wrote (Finishing p (Inr r)) = True"
| "wrote (Done (Inr r)) = True"
| "wrote q = False"

definition holders :: "int \<Rightarrow> call list \<Rightarrow> nat" where
  "holders u cs = (\<Sum>c\<leftarrow>cs. if user c = u \<and> inCS (pc c) then 1 else 0)"

text \<open>
  What a call inside its critical section holds in its variables, against the
  stored balance \<open>b\<close> of its user: the amount it is about to store is the
  sum of \<open>b\<close> and its amount for a charge and their difference for a use,
  which has at most \<open>b\<close> for its amount; once it has stored, \<open>b\<close>
  is the amount it has stored, and the amount of the record it returns.
\<close>

fun held_ok :: "int \<Rightarrow> call \<Rightarrow> pc \<Rightarrow> bool" where
  "held_ok b c (Putting p n t) =
     (case kind c of
        CHARGE \<Rightarrow> n = js_add b (amt c)
      | USE \<Rightarrow> amt c \<le> b \<and> n = js_sub b (amt c))"
| "held_ok b c (Inserting p n t) = (b = n)"
| "held_ok b c (Finishing p (Inr r)) = (b = point r)"
| "held_ok b c q = True"

text \<open>
  \<open>exclusive u\<close>: at most one call of the user \<open>u\<close> is inside its
  critical section, and none when the key of \<open>u\<close> is free; and what that
  call holds fits the stored balance of \<open>u\<close>.
\<close>

definition exclusive :: "int \<Rightarrow> sys \<Rightarrow> bool" where
  "exclusive u s \<longleftrightarrow>
     holders u (calls s) \<le> 1
     \<and> (locks s (user_key u) = None \<longrightarrow> holders u (calls s) = 0)
     \<and> (\<forall>j < length (calls s). user (calls s ! j) = u \<longrightarrow>
          held_ok (balance (tables s) u) (calls s ! j) (pc (calls s ! j)))"

text \<open>
  What the calls of \<open>u\<close> that have written add to its balance, and the sum
  of the magnitudes of the amounts of all calls of \<open>u\<close>.  For a user
  whose balance was \<open>b\<close> before the calls, \<open>serial u b\<close> says:
  \<open>exclusive u\<close> holds, the magnitude of \<open>b\<close> and the amounts do not
  add up to more than \<open>2\<^sup>5\<^sup>3\<close>, and the stored balance is \<open>b\<close> plus
  what the calls of \<open>u\<close> that have written add.
\<close>

definition applied :: "int \<Rightarrow> call list \<Rightarrow> int" where
  "applied u cs = (\<Sum>c\<leftarrow>cs. if user c = u \<and> wrote (pc c) then signed c else 0)"

definition amounts :: "int \<Rightarrow> call list \<Rightarrow> int" where
  "amounts u cs = (\<Sum>c\<leftarrow>cs. if user c = u then \<bar>amt c\<bar> else 0)"

definition serial :: "int \<Rightarrow> int \<Rightarrow> sys \<Rightarrow> bool" where
  "serial u b s \<longleftrightarrow>
     exclusive u s
     \<and> \<bar>b\<bar> + amounts u (calls s) \<le> 9007199254740992
     \<and> balance (tables s) u = b + applied u (calls s)"

text \<open>The part of a call that no segment changes.\<close>

definition static :: "call \<Rightarrow> TransactionType \<times> int \<times> int \<times> int" where
  "static c = (kind c, user c, amt c, timeoutMs c)"

section \<open>What the lock manager shows\<close>

text \<open>
  The deadline a waiting call holds in its variable \<^verbatim>\<open>maxWaitTime\<close>, and
  the time at which the timer that \<^verbatim>\<open>timeouts\<close> has for a key is due,
  if it is still armed.
\<close>

definition wait_deadline :: "sys \<Rightarrow> nat \<Rightarrow> int option" where
  "wait_deadline s i = (case pc (calls s ! i) of Waiting m p \<Rightarrow> Some m | _ \<Rightarrow> None)"

definition hold_timer_due :: "sys \<Rightarrow> string \<Rightarrow> int option" where
  "hold_timer_due s key =
     (case timeouts s key of None \<Rightarrow> None | Some tm \<Rightarrow> map_option fst (timers s tm))"

text \<open>
  The deadline of the next test of the wait loop by call \<open>i\<close>: the one it
  holds when it waits, and the clock plus \<^verbatim>\<open>timeoutMs\<close> (line 16) when
  it has yet to start.
\<close>

definition next_deadline :: "sys \<Rightarrow> nat \<Rightarrow> int" where
  "next_deadline s i =
     (case pc (calls s ! i) of
        Waiting m p \<Rightarrow> m
      | _ \<Rightarrow> js_add (clock s) (timeoutMs (calls s ! i)))"

text \<open>
  The two bounds of a call, read off the lock manager at time 0: how long after
  the call the deadline of its wait is, found by making the call while another
  call holds the key; and how long after the call its hold timer is due, found
  by making the call with the key free.
\<close>

definition wait_budget :: "call \<Rightarrow> int option" where
  "wait_budget c =
     (case exec [Run 0, Run 1] (init empty_db 0 [chargePoint (user c) 1, c]) of
        Some s \<Rightarrow> wait_deadline s 1
      | None \<Rightarrow> None)"

definition hold_budget :: "call \<Rightarrow> int option" where
  "hold_budget c =
     (case exec [Run 0] (init empty_db 0 [c]) of
        Some s \<Rightarrow> hold_timer_due s (user_key (user c))
      | None \<Rightarrow> None)"

text \<open>
  A call has not started its operation when it has yet to be made, waits for
  the key, or has given up waiting.  No call is ever about to settle with the
  error of the lock manager out of its \<^verbatim>\<open>finally\<close> block, which
  \<open>sane\<close> records.
\<close>

fun not_started :: "pc \<Rightarrow> bool" where
  "not_started Start = True"
| "not_started (Waiting m p) = True"
| "not_started (Done (Inl (LockTimeout k))) = True"
| "not_started q = False"

definition sane :: "sys \<Rightarrow> bool" where
  "sane s \<longleftrightarrow> (\<forall>j < length (calls s). \<forall>p k. pc (calls s ! j) \<noteq> Finishing p (Inl (LockTimeout k)))"

text \<open>
  A call run on its own: its segments one after the other, at most \<open>n\<close>
  of them, until it is settled.
\<close>

fun settle :: "nat \<Rightarrow> nat \<Rightarrow> sys \<Rightarrow> sys option" where
  "settle 0 i s = (case pc (calls s ! i) of Done r \<Rightarrow> Some s | _ \<Rightarrow> None)"
| "settle (Suc n) i s =
     (case pc (calls s ! i) of
        Done r \<Rightarrow> Some s
      | _ \<Rightarrow> (case step (Run i) s of None \<Rightarrow> None | Some s' \<Rightarrow> settle n i s'))"

text \<open>
  A call made with no other call in flight, and run to its end while the clock
  stands at \<open>now\<close>: what it settles with, and the tables it leaves.
\<close>

definition call_alone :: "db \<Rightarrow> int \<Rightarrow> call \<Rightarrow> ((error + UserPoint) \<times> db) option" where
  "call_alone d now c =
     (case settle 5 0 (init d now [c]) of
        None \<Rightarrow> None
      | Some s \<Rightarrow> (case pc (calls s ! 0) of Done r \<Rightarrow> Some (r, tables s) | _ \<Rightarrow> None))"

text \<open>
  For the balance of a user \<open>u\<close> to stay at 0 or above it is enough that
  it is so now, that every call of \<open>u\<close> that has passed the test of its
  amount has an amount above 0, and that no call of \<open>u\<close> is about to
  store an amount below 0.
\<close>

fun safe_pc :: "int \<Rightarrow> pc \<Rightarrow> bool" where
  "safe_pc a (Selecting p) = (0 < a)"
| "safe_pc a (Putting p n t) = (0 \<le> n)"
| "safe_pc a q = True"

definition nonneg :: "int \<Rightarrow> sys \<Rightarrow> bool" where
  "nonneg u s \<longleftrightarrow>
     0 \<le> balance (tables s) u
     \<and> (\<forall>j < length (calls s). user (calls s ! j) = u \<longrightarrow>
          safe_pc (amt (calls s ! j)) (pc (calls s ! j)))"

text \<open>
  Where a call can be, in any run.  It reads the balance, writes and appends
  only with an amount above 0; what it returns is a record of its user; its
  operation throws the exception for the amount when the amount is 0 or less,
  and the exception for insufficient points only in a use with an amount above
  0; and the only other error it settles with is that of the lock manager, for
  the key of its user.
\<close>

fun outcome :: "call \<Rightarrow> error + UserPoint \<Rightarrow> bool" where
  "outcome c (Inr r) = (0 < amt c \<and> uid r = user c)"
| "outcome c (Inl e) =
     (e = invalid_amount (kind c) \<and> amt c \<le> 0
      \<or> e = BadRequestException PointInsufficient \<and> kind c = USE \<and> 0 < amt c)"

fun shape :: "call \<Rightarrow> pc \<Rightarrow> bool" where
  "shape c Start = True"
| "shape c (Waiting m p) = True"
| "shape c (Selecting p) = (0 < amt c)"
| "shape c (Putting p n t) = (0 < amt c)"
| "shape c (Inserting p n t) = (0 < amt c)"
| "shape c (Finishing p r) = outcome c r"
| "shape c (Done r) = (outcome c r \<or> r = Inl (LockTimeout (user_key (user c))))"

definition shaped :: "sys \<Rightarrow> bool" where
  "shaped s \<longleftrightarrow> (\<forall>j < length (calls s). shape (calls s ! j) (pc (calls s ! j)))"

text \<open>
  A call has appended its entry to the log when its operation has returned a
  record; \<open>entries\<close> counts those calls.
\<close>

fun appended :: "pc \<Rightarrow> bool" where
  "appended (Finishing p (Inr r)) = True"
| "appended (Done (Inr r)) = True"
| "appended q = False"

definition entries :: "call list \<Rightarrow> nat" where
  "entries cs = (\<Sum>c\<leftarrow>cs. if appended (pc c) then 1 else 0)"

text \<open>
  A call has not written when it has yet to take the key, is about to read the
  balance, or has an error for its outcome.
\<close>

fun unwritten :: "pc \<Rightarrow> bool" where
  "unwritten Start = True"
| "unwritten (Waiting m p) = True"
| "unwritten (Selecting p) = True"
| "unwritten (Finishing p (Inl e)) = True"
| "unwritten (Done (Inl e)) = True"
| "unwritten q = False"

section \<open>Properties of sums and differences\<close>

lemma round53_exact: "\<bar>x\<bar> \<le> 9007199254740992 \<Longrightarrow> round53 x = x"
  by (simp add: round53_def)

lemma ulp_pos: "0 < ulp x"
proof (induction x rule: ulp.induct)
  case (1 x)
  then show ?case by (subst ulp.simps) simp
qed

lemma ulp_lower: "4503599627370496 \<le> x \<Longrightarrow> 4503599627370496 * ulp x \<le> x"
proof (induction x rule: ulp.induct)
  case (1 x)
  show ?case
  proof (cases "x < 9007199254740992")
    case True
    with "1.prems" show ?thesis by (subst ulp.simps) simp
  next
    case False
    with "1.prems" have "4503599627370496 * ulp (x div 2) \<le> x div 2"
      by (intro "1.IH") simp_all
    moreover have "2 * (x div 2) \<le> x" by simp
    ultimately have "4503599627370496 * (2 * ulp (x div 2)) \<le> x" by linarith
    with False show ?thesis by (subst ulp.simps) simp
  qed
qed

text \<open>Beyond \<open>2\<^sup>5\<^sup>3\<close> rounding keeps the sign, and a magnitude of
  \<open>2\<^sup>5\<^sup>2\<close> at least.\<close>

lemma round53_large:
  assumes "9007199254740992 < \<bar>x\<bar>"
  shows "\<exists>k. 4503599627370496 \<le> k \<and> round53 x = sgn x * k"
proof -
  let ?u = "ulp \<bar>x\<bar>"
  let ?q = "\<bar>x\<bar> div ?u"
  let ?r = "\<bar>x\<bar> mod ?u"
  let ?m = "if ?u < 2 * ?r \<or> (2 * ?r = ?u \<and> odd ?q) then ?q + 1 else ?q"
  have u: "0 < ?u" by (rule ulp_pos)
  from assms have "4503599627370496 * ?u \<le> \<bar>x\<bar>"
    by (intro ulp_lower) simp
  then have "(4503599627370496 * ?u) div ?u \<le> \<bar>x\<bar> div ?u"
    using u by (rule zdiv_mono1)
  with u have q: "4503599627370496 \<le> ?q" by simp
  then have "4503599627370496 \<le> ?m" by auto
  moreover have "?m \<le> ?m * ?u"
    using u q by (auto simp: mult_le_cancel_left1)
  ultimately have "4503599627370496 \<le> ?m * ?u" by linarith
  moreover from assms have "round53 x = sgn x * (?m * ?u)"
    by (simp add: round53_def Let_def)
  ultimately show ?thesis by blast
qed

lemma round53_le_0_iff: "round53 x \<le> 0 \<longleftrightarrow> x \<le> 0"
proof (cases "\<bar>x\<bar> \<le> 9007199254740992")
  case True
  then show ?thesis by (simp add: round53_exact)
next
  case False
  then obtain k :: int where "4503599627370496 \<le> k" "round53 x = sgn x * k"
    using round53_large [of x] by auto
  moreover from this have "0 < k" by simp
  ultimately show ?thesis
    by (cases "0 < x") (auto simp: sgn_if mult_le_0_iff split: if_splits)
qed

lemma round53_nonneg: "0 \<le> x \<Longrightarrow> 0 \<le> round53 x"
proof (cases "\<bar>x\<bar> \<le> 9007199254740992")
  case True
  assume "0 \<le> x"
  with True show ?thesis by (simp add: round53_exact)
next
  case False
  assume "0 \<le> x"
  from False obtain k :: int where "4503599627370496 \<le> k" "round53 x = sgn x * k"
    using round53_large [of x] by auto
  with \<open>0 \<le> x\<close> show ?thesis by (simp add: sgn_if)
qed

lemma js_add_exact: "\<bar>a + b\<bar> \<le> 9007199254740992 \<Longrightarrow> js_add a b = a + b"
  by (simp add: js_add_def round53_exact)

lemma js_sub_exact: "\<bar>a - b\<bar> \<le> 9007199254740992 \<Longrightarrow> js_sub a b = a - b"
  by (simp add: js_sub_def round53_exact)

lemma js_add_nonneg: "0 \<le> a \<Longrightarrow> 0 \<le> b \<Longrightarrow> 0 \<le> js_add a b"
  by (simp add: js_add_def round53_nonneg)

lemma js_sub_nonneg: "b \<le> a \<Longrightarrow> 0 \<le> js_sub a b"
  by (simp add: js_sub_def round53_nonneg)

lemma js_sub_le_0_iff: "js_sub a b \<le> 0 \<longleftrightarrow> a \<le> b"
  by (simp add: js_sub_def round53_le_0_iff)

section \<open>Properties of the operations run without interference\<close>

lemma point_selectById: "point (selectById (userPointTable d) now u) = balance d u"
  by (simp add: balance_def selectById_def split: option.splits)

lemma balance_insertOrUpdate:
  "balance (d\<lparr>userPointTable := insertOrUpdate (userPointTable d) t u p\<rparr>) v =
     (if v = u then p else balance d v)"
  by (simp add: balance_def selectById_def insertOrUpdate_def)

lemma balance_history_update [simp]:
  "balance (d\<lparr>pointHistoryTable := h\<rparr>) v = balance d v"
  by (simp add: balance_def)

lemma balance_empty_db [simp]: "balance empty_db u = 0"
  by (simp add: balance_def empty_db_def selectById_def)



lemma operation_timestamp:
  assumes "operation k d u a t0 t1 t2 = (Inr r, d')"
  shows "\<exists>h. pointHistoryTable d' = pointHistoryTable d @ [h]
           \<and> timeMillis h = updateMillis r \<and> updateMillis r = t1"
  using assms
  by (cases k)
    (auto simp: operation_def chargePoint_op_def usePoint_op_def Let_def insert_history_def
      split: if_splits)

lemma run_request_nonneg:
  "0 \<le> balance d u \<Longrightarrow> 0 \<le> balance (run_request d r) u"
  by (auto simp: run_request_def operation_def chargePoint_op_def usePoint_op_def Let_def
      point_selectById balance_insertOrUpdate js_add_nonneg js_sub_nonneg
      split: prod.splits TransactionType.splits)

lemma run_requests_nonneg:
  "0 \<le> balance d u \<Longrightarrow> 0 \<le> balance (foldl run_request d rs) u"
  by (induction rs arbitrary: d) (simp_all add: run_request_nonneg)

section \<open>The history of a user\<close>

text \<open>
  The sign of \<^verbatim>\<open>b.timeMillis - a.timeMillis\<close> is that of the exact
  difference, so the sort with the comparator of the service is the stable sort
  by time stamp, latest first.
\<close>

lemma insert_cmp_timeMillis:
  "insert_cmp (\<lambda>a b. js_sub (timeMillis b) (timeMillis a)) x ys =
     insort_key (\<lambda>h. - timeMillis h) x ys"
  by (induction ys) (simp_all add: js_sub_le_0_iff)

lemma sort_cmp_timeMillis:
  "sort_cmp (\<lambda>a b. js_sub (timeMillis b) (timeMillis a)) hs = sort_key (\<lambda>h. - timeMillis h) hs"
  by (induction hs) (simp_all add: sort_cmp_def sort_key_def insert_cmp_timeMillis)

lemma sorted_desc_sort_key:
  "sorted_wrt (\<lambda>a b. timeMillis b \<le> timeMillis a) (sort_key (\<lambda>h. - timeMillis h) hs)"
proof -
  have "sorted (map (\<lambda>h. - timeMillis h) (sort_key (\<lambda>h. - timeMillis h) hs))"
    by (rule sorted_sort_key)
  then show ?thesis by (simp add: sorted_map)
qed

text \<open>
  C6, as the code has it.  \<^verbatim>\<open>getPointHistories\<close> returns exactly the
  entries that the store lists for the user, latest time stamp first; entries
  with the same time stamp come in the order in which the store lists them,
  whatever that order is: the sort is stable and its comparator looks at the
  time stamp only.
\<close>

theorem getPointHistories_sorted_stable:
  "mset (getPointHistories listing d u) = mset (selectAllByUserId listing (pointHistoryTable d) u)
   \<and> sorted_wrt (\<lambda>a b. timeMillis b \<le> timeMillis a) (getPointHistories listing d u)
   \<and> filter (\<lambda>h. timeMillis h = t) (getPointHistories listing d u) =
       filter (\<lambda>h. timeMillis h = t) (selectAllByUserId listing (pointHistoryTable d) u)"
proof -
  have "filter (\<lambda>h. - timeMillis h = - t) (sort_key (\<lambda>h. - timeMillis h) hs) =
        filter (\<lambda>h. - timeMillis h = - t) hs" for hs :: "PointHistory list"
    by (rule sort_key_stable)
  then show ?thesis
    by (simp add: getPointHistories_def Let_def sort_cmp_timeMillis sorted_desc_sort_key)
qed

theorem getPointHistories_sorted_stable_witness:
  "getPointHistories (\<lambda>hs. hs) (foldl run_request empty_db
      [(CHARGE, 1, 1000, 1, 1, 2), (USE, 1, 300, 11, 11, 12), (CHARGE, 1, 500, 21, 21, 22)]) 1 =
     [\<lparr>hid = 3, userId = 1, amount = 500, ttype = CHARGE, timeMillis = 21\<rparr>,
      \<lparr>hid = 2, userId = 1, amount = 300, ttype = USE, timeMillis = 11\<rparr>,
      \<lparr>hid = 1, userId = 1, amount = 1000, ttype = CHARGE, timeMillis = 1\<rparr>]
   \<and> sorted_wrt (\<lambda>a b. timeMillis b \<le> timeMillis a)
       (getPointHistories (\<lambda>hs. hs) (foldl run_request empty_db
          [(CHARGE, 1, 1000, 1, 1, 2), (USE, 1, 300, 11, 11, 12), (CHARGE, 1, 500, 21, 21, 22)]) 1)
   \<and> getPointHistories rev (foldl run_request empty_db
      [(CHARGE, 1, 1000, 5, 5, 5), (USE, 1, 300, 5, 5, 5)]) 1 =
     [\<lparr>hid = 2, userId = 1, amount = 300, ttype = USE, timeMillis = 5\<rparr>,
      \<lparr>hid = 1, userId = 1, amount = 1000, ttype = CHARGE, timeMillis = 5\<rparr>]"
proof -
  let ?d = "foldl run_request empty_db
      [(CHARGE, 1, 1000, 1, 1, 2), (USE, 1, 300, 11, 11, 12), (CHARGE, 1, 500, 21, 21, 22)]"
  have 1: "getPointHistories (\<lambda>hs. hs) ?d 1 =
     [\<lparr>hid = 3, userId = 1, amount = 500, ttype = CHARGE, timeMillis = 21\<rparr>,
      \<lparr>hid = 2, userId = 1, amount = 300, ttype = USE, timeMillis = 11\<rparr>,
      \<lparr>hid = 1, userId = 1, amount = 1000, ttype = CHARGE, timeMillis = 1\<rparr>]"
    by code_simp
  have 2: "getPointHistories rev (foldl run_request empty_db
      [(CHARGE, 1, 1000, 5, 5, 5), (USE, 1, 300, 5, 5, 5)]) 1 =
     [\<lparr>hid = 2, userId = 1, amount = 300, ttype = USE, timeMillis = 5\<rparr>,
      \<lparr>hid = 1, userId = 1, amount = 1000, ttype = CHARGE, timeMillis = 5\<rparr>]"
    by code_simp
  from 1 2 getPointHistories_sorted_stable [of "\<lambda>hs. hs" ?d 1 11] show ?thesis by blast
qed

text \<open>
  C6, as the claim has it, fails for a store that lists the entries in the
  order of insertion: a charge and a use of one user in the same millisecond
  come back with the charge, which was inserted first, in front.
\<close>

theorem getPointHistories_tie_counterexample:
  "getPointHistories (\<lambda>hs. hs) (foldl run_request empty_db
      [(CHARGE, 1, 1000, 5, 5, 5), (USE, 1, 300, 5, 5, 5)]) 1 =
     [\<lparr>hid = 1, userId = 1, amount = 1000, ttype = CHARGE, timeMillis = 5\<rparr>,
      \<lparr>hid = 2, userId = 1, amount = 300, ttype = USE, timeMillis = 5\<rparr>]"
  by code_simp

section \<open>Keys of distinct users are distinct\<close>

lemma digit_inj: "a < 10 \<Longrightarrow> b < 10 \<Longrightarrow> digit a = digit b \<Longrightarrow> a = b"
proof -
  assume a: "a < 10" and b: "b < 10" and e: "digit a = digit b"
  have d: "distinct ''0123456789''" by simp
  have "length ''0123456789'' = 10" by simp
  with a b e d show "a = b"
    unfolding digit_def by (metis nth_eq_iff_index_eq)
qed

lemma digits_not_Nil: "digits n \<noteq> []"
  by (subst digits.simps) simp

lemma digit_in: "n < 10 \<Longrightarrow> digit n \<in> set ''0123456789''"
  unfolding digit_def by (rule nth_mem) simp

lemma set_digits: "set (digits n) \<subseteq> set ''0123456789''"
proof (induction n rule: digits.induct)
  case (1 n)
  show ?case
  proof (cases "n < 10")
    case True
    then show ?thesis using digit_in [of n] by (subst digits.simps) simp
  next
    case False
    have "n mod 10 < 10" by simp
    then have "digit (n mod 10) \<in> set ''0123456789''" by (rule digit_in)
    with False 1 show ?thesis by (subst digits.simps) simp
  qed
qed

lemma digits_inj: "digits n = digits m \<Longrightarrow> n = m"
proof (induction n arbitrary: m rule: digits.induct)
  case (1 n)
  show ?case
  proof (cases "n < 10")
    case n: True
    show ?thesis
    proof (cases "m < 10")
      case True
      with n "1.prems" have "digit n = digit m"
        by (simp add: digits.simps [of n] digits.simps [of m])
      with n True show ?thesis by (rule digit_inj)
    next
      case False
      with n "1.prems" have "digits (m div 10) = []"
        by (simp add: digits.simps [of n] digits.simps [of m])
      then show ?thesis by (simp add: digits_not_Nil)
    qed
  next
    case n: False
    show ?thesis
    proof (cases "m < 10")
      case True
      with n "1.prems" have "digits (n div 10) = []"
        by (simp add: digits.simps [of n] digits.simps [of m])
      then show ?thesis by (simp add: digits_not_Nil)
    next
      case False
      with n "1.prems" have e: "digits (n div 10) = digits (m div 10)"
        and d: "digit (n mod 10) = digit (m mod 10)"
        by (simp_all add: digits.simps [of n] digits.simps [of m])
      from n e have "n div 10 = m div 10" by (rule "1.IH")
      moreover from d have "n mod 10 = m mod 10" by (intro digit_inj) simp_all
      ultimately show ?thesis by (metis div_mult_mod_eq)
    qed
  qed
qed

lemma show_int_inj: "show_int i = show_int j \<Longrightarrow> i = j"
proof -
  assume e: "show_int i = show_int j"
  have minus: "CHR ''-'' \<notin> set (digits n)" for n
    using set_digits [of n] by auto
  consider "i < 0" "j < 0" | "i < 0" "0 \<le> j" | "0 \<le> i" "j < 0" | "0 \<le> i" "0 \<le> j"
    by linarith
  then show "i = j"
  proof cases
    case 1
    with e have "digits (nat (- i)) = digits (nat (- j))" by (simp add: show_int_def)
    then have "nat (- i) = nat (- j)" by (rule digits_inj)
    with 1 show ?thesis by simp
  next
    case 2
    with e have "CHR ''-'' # digits (nat (- i)) = digits (nat j)" by (simp add: show_int_def)
    then have "CHR ''-'' \<in> set (digits (nat j))" by (metis list.set_intros(1))
    with minus show ?thesis by blast
  next
    case 3
    with e have "digits (nat i) = CHR ''-'' # digits (nat (- j))" by (simp add: show_int_def)
    then have "CHR ''-'' \<in> set (digits (nat i))" by (metis list.set_intros(1))
    with minus show ?thesis by blast
  next
    case 4
    with e have "digits (nat i) = digits (nat j)" by (simp add: show_int_def)
    then have "nat i = nat j" by (rule digits_inj)
    with 4 show ?thesis by simp
  qed
qed

lemma user_key_eq_iff [simp]: "user_key u = user_key v \<longleftrightarrow> u = v"
  by (auto simp: user_key_def dest: show_int_inj)

section \<open>Basic facts about segments and runs\<close>

text \<open>
  The fields of the state after a change of program counter and after the key
  is taken; runs of one event and of a sequence followed by another; and that
  a segment changes the program counter of its call and nothing else of the
  calls.
\<close>

lemma set_pc_fields [simp]:
  "calls (set_pc s i q) = (calls s)[i := (calls s ! i)\<lparr>pc := q\<rparr>]"
  "tables (set_pc s i q) = tables s"
  "locks (set_pc s i q) = locks s"
  "timeouts (set_pc s i q) = timeouts s"
  "timers (set_pc s i q) = timers s"
  "resolved (set_pc s i q) = resolved s"
  "clock (set_pc s i q) = clock s"
  by (simp_all add: set_pc_def)

lemma acquire_fields:
  "calls (acquire s i) = (calls s)[i := (calls s ! i)\<lparr>pc :=
      if amt (calls s ! i) \<le> 0
      then Finishing (promises s) (Inl (invalid_amount (kind (calls s ! i))))
      else Selecting (promises s)\<rparr>]"
  "tables (acquire s i) = tables s"
  "locks (acquire s i) = (locks s)(user_key (user (calls s ! i)) \<mapsto> promises s)"
  "timeouts (acquire s i) = (timeouts s)(user_key (user (calls s ! i)) \<mapsto> timerCount s)"
  "timers (acquire s i) = (timers s)(timerCount s \<mapsto>
      (clock s + setTimeout_delay (timeoutMs (calls s ! i)), user_key (user (calls s ! i)),
       promises s))"
  "resolved (acquire s i) = resolved s"
  "clock (acquire s i) = clock s"
  by (cases "amt (calls s ! i) \<le> 0"; simp add: acquire_def Let_def)+

lemma exec_single: "exec [e] s = step e s"
  by (cases "step e s") simp_all

lemma exec_append:
  "exec (es1 @ es2) s = (case exec es1 s of None \<Rightarrow> None | Some s1 \<Rightarrow> exec es2 s1)"
  by (induction es1 arbitrary: s) (simp_all split: option.splits)

lemma static_pc [simp]: "static (c\<lparr>pc := q\<rparr>) = static c"
  by (simp add: static_def)

lemma map_static_update [simp]:
  "map static (cs[i := (cs ! i)\<lparr>pc := q\<rparr>]) = map static cs"
proof (cases "i < length cs")
  case True
  then have "(map static cs)[i := map static cs ! i] = map static cs"
    by (simp only: list_update_id)
  with True show ?thesis by (simp add: map_update)
next
  case False
  then have "length cs \<le> i" by simp
  then show ?thesis by (simp only: list_update_beyond)
qed

lemma run_call_calls:
  "run_call s i = Some s' \<Longrightarrow> \<exists>q. calls s' = (calls s)[i := (calls s ! i)\<lparr>pc := q\<rparr>]"
  by (auto simp: run_call_def loop_check_def acquire_fields selected_def put_done_def
      inserted_def finally_block_def Let_def
      split: pc.splits option.splits if_splits TransactionType.splits)

lemma step_static: "step e s = Some s' \<Longrightarrow> map static (calls s') = map static (calls s)"
proof (cases e)
  case (Run i)
  assume "step e s = Some s'"
  with Run have "run_call s i = Some s'" by (simp split: if_splits)
  then obtain q where "calls s' = (calls s)[i := (calls s ! i)\<lparr>pc := q\<rparr>]"
    using run_call_calls by blast
  then show ?thesis by simp
next
  case (Fire tm)
  assume "step e s = Some s'"
  with Fire show ?thesis by (auto simp: fire_def split: option.splits if_splits)
next
  case (Tick n)
  assume "step e s = Some s'"
  with Tick show ?thesis by auto
qed

lemma exec_static: "exec es s = Some s' \<Longrightarrow> map static (calls s') = map static (calls s)"
proof (induction es arbitrary: s)
  case Nil
  then show ?case by simp
next
  case (Cons e es)
  then obtain s1 where 1: "step e s = Some s1" and 2: "exec es s1 = Some s'"
    by (auto split: option.splits)
  from Cons.IH [OF 2] step_static [OF 1] show ?case by simp
qed

section \<open>Runs in which no timer fires are serial\<close>

lemma sum_list_map_update:
  fixes f :: "'a \<Rightarrow> 'b::comm_monoid_add"
  shows "i < length xs \<Longrightarrow>
    sum_list (map f (xs[i := y])) + f (xs ! i) = sum_list (map f xs) + f y"
proof (induction xs arbitrary: i)
  case Nil
  then show ?case by simp
next
  case (Cons x xs)
  show ?case
  proof (cases i)
    case 0
    then show ?thesis by (simp add: ac_simps)
  next
    case (Suc k)
    with Cons.prems have "k < length xs" by simp
    from Cons.IH [OF this] Suc show ?thesis by (simp add: ac_simps)
  qed
qed

lemma holders_update:
  "i < length cs \<Longrightarrow>
   holders u (cs[i := (cs ! i)\<lparr>pc := q\<rparr>]) + (if user (cs ! i) = u \<and> inCS (pc (cs ! i)) then 1 else 0) =
   holders u cs + (if user (cs ! i) = u \<and> inCS q then 1 else 0)"
  unfolding holders_def
  using sum_list_map_update [of i cs "\<lambda>c. if user c = u \<and> inCS (pc c) then 1 else 0" "(cs ! i)\<lparr>pc := q\<rparr>"]
  by simp

lemma signed_pc [simp]: "signed (c\<lparr>pc := q\<rparr>) = signed c"
  by (simp add: signed_def split: TransactionType.splits)

lemma applied_update:
  "i < length cs \<Longrightarrow>
   applied u (cs[i := (cs ! i)\<lparr>pc := q\<rparr>]) + (if user (cs ! i) = u \<and> wrote (pc (cs ! i)) then signed (cs ! i) else 0) =
   applied u cs + (if user (cs ! i) = u \<and> wrote q then signed (cs ! i) else 0)"
  unfolding applied_def
  using sum_list_map_update [of i cs "\<lambda>c. if user c = u \<and> wrote (pc c) then signed c else 0" "(cs ! i)\<lparr>pc := q\<rparr>"]
  by simp

lemma nth_le_sum_list_map:
  fixes f :: "'a \<Rightarrow> nat"
  shows "j < length xs \<Longrightarrow> f (xs ! j) \<le> sum_list (map f xs)"
proof -
  assume "j < length xs"
  then have "f (xs ! j) \<in> set (map f xs)" by simp
  then show ?thesis by (simp add: member_le_sum_list)
qed

lemma holders_two:
  assumes "i < length cs" "j < length cs" "i \<noteq> j"
    and "user (cs ! i) = u" "inCS (pc (cs ! i))" "user (cs ! j) = u" "inCS (pc (cs ! j))"
  shows "2 \<le> holders u cs"
proof -
  let ?f = "\<lambda>c. if user c = u \<and> inCS (pc c) then 1 else 0 :: nat"
  let ?cs = "cs[i := (cs ! i)\<lparr>pc := Start\<rparr>]"
  have "holders u ?cs + 1 = holders u cs"
    using holders_update [OF assms(1), of u Start] assms by simp
  moreover have "j < length ?cs" using assms by simp
  then have "?f (?cs ! j) \<le> sum_list (map ?f ?cs)"
    by (rule nth_le_sum_list_map)
  then have "1 \<le> holders u ?cs"
    using assms by (simp add: holders_def)
  ultimately show ?thesis by linarith
qed

lemma held_ok_pc [simp]: "held_ok b (c\<lparr>pc := q'\<rparr>) q = held_ok b c q"
proof (cases q)
  case (Finishing p r)
  then show ?thesis by (cases r) simp_all
qed (simp_all split: TransactionType.splits)

lemma held_ok_outside: "\<not> inCS q \<Longrightarrow> held_ok b c q"
  by (cases q) simp_all

lemma exclusive_step:
  assumes inv: "exclusive u s"
    and i: "i < length (calls s)"
    and calls: "calls s' = (calls s)[i := (calls s ! i)\<lparr>pc := q\<rparr>]"
    and enter: "user (calls s ! i) = u \<Longrightarrow> inCS q \<Longrightarrow> \<not> inCS (pc (calls s ! i)) \<Longrightarrow>
                  locks s (user_key u) = None"
    and held: "user (calls s ! i) = u \<Longrightarrow> inCS q \<Longrightarrow> locks s' (user_key u) \<noteq> None"
    and keep: "locks s' (user_key u) = None \<Longrightarrow>
                 locks s (user_key u) = None \<or> user (calls s ! i) = u \<and> inCS (pc (calls s ! i))"
    and other: "balance (tables s') u \<noteq> balance (tables s) u \<Longrightarrow>
                  user (calls s ! i) = u \<and> inCS (pc (calls s ! i))"
    and self: "user (calls s ! i) = u \<Longrightarrow> held_ok (balance (tables s') u) (calls s ! i) q"
  shows "exclusive u s'"
proof -
  let ?c = "calls s ! i"
  let ?old = "if user ?c = u \<and> inCS (pc ?c) then 1 else 0 :: nat"
  let ?new = "if user ?c = u \<and> inCS q then 1 else 0 :: nat"
  from inv have h1: "holders u (calls s) \<le> 1"
    and h0: "locks s (user_key u) = None \<Longrightarrow> holders u (calls s) = 0"
    and ok: "\<And>j. j < length (calls s) \<Longrightarrow> user (calls s ! j) = u \<Longrightarrow>
               held_ok (balance (tables s) u) (calls s ! j) (pc (calls s ! j))"
    by (simp_all add: exclusive_def)
  have hs: "holders u (calls s') + ?old = holders u (calls s) + ?new"
    unfolding calls by (rule holders_update [OF i])
  have le1: "holders u (calls s') \<le> 1"
  proof (cases "user ?c = u \<and> inCS q \<and> \<not> inCS (pc ?c)")
    case True
    then have "locks s (user_key u) = None" using enter by simp
    then have "holders u (calls s) = 0" by (rule h0)
    with hs True show ?thesis by simp
  next
    case False
    then have "?new \<le> ?old" by auto
    with hs h1 show ?thesis by linarith
  qed
  have free: "holders u (calls s') = 0" if n: "locks s' (user_key u) = None"
  proof -
    from n held have new0: "?new = 0" by auto
    from keep [OF n] show ?thesis
    proof
      assume "locks s (user_key u) = None"
      then have "holders u (calls s) = 0" by (rule h0)
      with hs new0 show ?thesis by simp
    next
      assume "user ?c = u \<and> inCS (pc ?c)"
      then have "?old = 1" by simp
      with hs new0 h1 show ?thesis by simp
    qed
  qed
  have ok': "held_ok (balance (tables s') u) (calls s' ! j) (pc (calls s' ! j))"
    if j: "j < length (calls s')" and uj: "user (calls s' ! j) = u" for j
  proof (cases "j = i")
    case True
    with uj i calls have "user ?c = u" by simp
    from self [OF this] True i calls show ?thesis by simp
  next
    case False
    with j calls have same: "calls s' ! j = calls s ! j" and j': "j < length (calls s)"
      by simp_all
    show ?thesis
    proof (cases "inCS (pc (calls s ! j))")
      case False
      with same show ?thesis by (simp add: held_ok_outside)
    next
      case True
      have "balance (tables s') u = balance (tables s) u"
      proof (rule ccontr)
        assume "balance (tables s') u \<noteq> balance (tables s) u"
        then have "user ?c = u \<and> inCS (pc ?c)" by (rule other)
        moreover from uj same have "user (calls s ! j) = u" by simp
        ultimately have "2 \<le> holders u (calls s)"
          using holders_two [OF i j', of u] True \<open>j \<noteq> i\<close> by auto
        with h1 show False by simp
      qed
      with ok [OF j'] uj same show ?thesis by simp
    qed
  qed
  from le1 free ok' show ?thesis by (simp add: exclusive_def)
qed

lemma wrote_Finishing_Done: "wrote (Finishing p r) = wrote (Done r)"
  by (cases r) simp_all

lemma exclusive_holder_locked:
  assumes "exclusive u s" "i < length (calls s)" "user (calls s ! i) = u" "inCS (pc (calls s ! i))"
  shows "locks s (user_key u) \<noteq> None"
proof
  assume "locks s (user_key u) = None"
  with assms(1) have "holders u (calls s) = 0" by (simp add: exclusive_def)
  moreover have "(if user (calls s ! i) = u \<and> inCS (pc (calls s ! i)) then 1 else 0 :: nat)
      \<le> holders u (calls s)"
    unfolding holders_def by (rule nth_le_sum_list_map [OF assms(2)])
  ultimately show False using assms by simp
qed

lemma exclusive_held_ok:
  assumes "exclusive u s" "i < length (calls s)" "user (calls s ! i) = u"
  shows "held_ok (balance (tables s) u) (calls s ! i) (pc (calls s ! i))"
  using assms by (simp add: exclusive_def)

lemma exclusive_loop_check:
  assumes inv: "exclusive u s" and i: "i < length (calls s)"
    and out: "\<not> inCS (pc (calls s ! i))"
  shows "exclusive u (loop_check s i maxWaitTime)"
proof (cases "locks s (user_key (user (calls s ! i)))")
  case (Some p)
  show ?thesis
  proof (cases "clock s > maxWaitTime")
    case True
    with Some have "loop_check s i maxWaitTime =
        set_pc s i (Done (Inl (LockTimeout (user_key (user (calls s ! i))))))"
      by (simp add: loop_check_def)
    moreover have "exclusive u (set_pc s i (Done (Inl (LockTimeout (user_key (user (calls s ! i)))))))"
      by (rule exclusive_step [OF inv i,
            where q = "Done (Inl (LockTimeout (user_key (user (calls s ! i)))))"])
        (use out in simp_all)
    ultimately show ?thesis by simp
  next
    case False
    with Some have "loop_check s i maxWaitTime = set_pc s i (Waiting maxWaitTime p)"
      by (simp add: loop_check_def)
    moreover have "exclusive u (set_pc s i (Waiting maxWaitTime p))"
      by (rule exclusive_step [OF inv i, where q = "Waiting maxWaitTime p"])
        (use out in simp_all)
    ultimately show ?thesis by simp
  qed
next
  case None
  let ?q = "if amt (calls s ! i) \<le> 0
            then Finishing (promises s) (Inl (invalid_amount (kind (calls s ! i))))
            else Selecting (promises s)"
  have "exclusive u (acquire s i)"
  proof (rule exclusive_step [OF inv i, where q = ?q])
    show "calls (acquire s i) = (calls s)[i := (calls s ! i)\<lparr>pc := ?q\<rparr>]"
      by (simp add: acquire_fields)
    show "locks s (user_key u) = None" if "user (calls s ! i) = u"
      using that None by simp
    show "locks (acquire s i) (user_key u) \<noteq> None" if "user (calls s ! i) = u"
      using that by (simp add: acquire_fields)
    show "locks s (user_key u) = None \<or> user (calls s ! i) = u \<and> inCS (pc (calls s ! i))"
      if "locks (acquire s i) (user_key u) = None"
      using that by (simp add: acquire_fields split: if_splits)
    show "user (calls s ! i) = u \<and> inCS (pc (calls s ! i))"
      if "balance (tables (acquire s i)) u \<noteq> balance (tables s) u"
      using that by (simp add: acquire_fields)
    show "held_ok (balance (tables (acquire s i)) u) (calls s ! i) ?q"
      by simp
  qed
  with None show ?thesis by (simp add: loop_check_def)
qed

lemma exclusive_selected:
  assumes inv: "exclusive u s" and i: "i < length (calls s)"
    and at: "pc (calls s ! i) = Selecting p"
  shows "exclusive u (selected s i p)"
proof -
  let ?c = "calls s ! i"
  let ?up = "selectById (userPointTable (tables s)) (clock s) (user ?c)"
  let ?q = "case kind ?c of
              CHARGE \<Rightarrow> Putting p (js_add (point ?up) (amt ?c)) (clock s)
            | USE \<Rightarrow> if point ?up < amt ?c
                     then Finishing p (Inl (BadRequestException PointInsufficient))
                     else Putting p (js_sub (point ?up) (amt ?c)) (clock s)"
  have eq: "selected s i p = set_pc s i ?q"
    by (simp add: selected_def Let_def split: TransactionType.splits)
  have "exclusive u (set_pc s i ?q)"
  proof (rule exclusive_step [OF inv i, where q = ?q])
    show "calls (set_pc s i ?q) = (calls s)[i := ?c\<lparr>pc := ?q\<rparr>]" by simp
    show "locks s (user_key u) = None" if "\<not> inCS (pc ?c)"
      using that at by simp
    show "locks (set_pc s i ?q) (user_key u) \<noteq> None" if "user ?c = u"
      using exclusive_holder_locked [OF inv i that] at by simp
    show "locks s (user_key u) = None \<or> user ?c = u \<and> inCS (pc ?c)"
      if "locks (set_pc s i ?q) (user_key u) = None"
      using that by simp
    show "user ?c = u \<and> inCS (pc ?c)"
      if "balance (tables (set_pc s i ?q)) u \<noteq> balance (tables s) u"
      using that by simp
    show "held_ok (balance (tables (set_pc s i ?q)) u) ?c ?q" if "user ?c = u"
      using that by (cases "kind ?c") (simp_all add: point_selectById)
  qed
  with eq show ?thesis by simp
qed

lemma exclusive_put_done:
  assumes inv: "exclusive u s" and i: "i < length (calls s)"
    and at: "pc (calls s ! i) = Putting p n t"
  shows "exclusive u (put_done s i p n t)"
proof -
  let ?c = "calls s ! i"
  show ?thesis
  proof (rule exclusive_step [OF inv i, where q = "Inserting p n t"])
    show "calls (put_done s i p n t) = (calls s)[i := ?c\<lparr>pc := Inserting p n t\<rparr>]"
      by (simp add: put_done_def Let_def)
    show "locks s (user_key u) = None" if "\<not> inCS (pc ?c)"
      using that at by simp
    show "locks (put_done s i p n t) (user_key u) \<noteq> None" if "user ?c = u"
      using exclusive_holder_locked [OF inv i that] at by (simp add: put_done_def Let_def)
    show "locks s (user_key u) = None \<or> user ?c = u \<and> inCS (pc ?c)"
      if "locks (put_done s i p n t) (user_key u) = None"
      using that by (simp add: put_done_def Let_def)
    show "user ?c = u \<and> inCS (pc ?c)"
      if "balance (tables (put_done s i p n t)) u \<noteq> balance (tables s) u"
      using that at by (simp add: put_done_def Let_def balance_insertOrUpdate split: if_splits)
    show "held_ok (balance (tables (put_done s i p n t)) u) ?c (Inserting p n t)"
      if "user ?c = u"
      using that by (simp add: put_done_def Let_def balance_insertOrUpdate)
  qed
qed

lemma exclusive_inserted:
  assumes inv: "exclusive u s" and i: "i < length (calls s)"
    and at: "pc (calls s ! i) = Inserting p n t"
  shows "exclusive u (inserted s i p n t)"
proof -
  let ?c = "calls s ! i"
  let ?q = "Finishing p (Inr \<lparr>uid = user ?c, point = n, updateMillis = t\<rparr>)"
  show ?thesis
  proof (rule exclusive_step [OF inv i, where q = ?q])
    show "calls (inserted s i p n t) = (calls s)[i := ?c\<lparr>pc := ?q\<rparr>]"
      by (simp add: inserted_def Let_def)
    show "locks s (user_key u) = None" if "\<not> inCS (pc ?c)"
      using that at by simp
    show "locks (inserted s i p n t) (user_key u) \<noteq> None" if "user ?c = u"
      using exclusive_holder_locked [OF inv i that] at by (simp add: inserted_def Let_def)
    show "locks s (user_key u) = None \<or> user ?c = u \<and> inCS (pc ?c)"
      if "locks (inserted s i p n t) (user_key u) = None"
      using that by (simp add: inserted_def Let_def)
    show "user ?c = u \<and> inCS (pc ?c)"
      if "balance (tables (inserted s i p n t)) u \<noteq> balance (tables s) u"
      using that by (simp add: inserted_def Let_def)
    show "held_ok (balance (tables (inserted s i p n t)) u) ?c ?q" if "user ?c = u"
      using exclusive_held_ok [OF inv i that] at by (simp add: inserted_def Let_def)
  qed
qed

lemma exclusive_finally_block:
  assumes inv: "exclusive u s" and i: "i < length (calls s)"
    and at: "pc (calls s ! i) = Finishing p r"
  shows "exclusive u (finally_block s i p r)"
proof -
  let ?c = "calls s ! i"
  show ?thesis
  proof (rule exclusive_step [OF inv i, where q = "Done r"])
    show "calls (finally_block s i p r) = (calls s)[i := ?c\<lparr>pc := Done r\<rparr>]"
      by (simp add: finally_block_def Let_def)
    show "locks s (user_key u) = None" if "inCS (Done r)"
      using that by simp
    show "locks (finally_block s i p r) (user_key u) \<noteq> None" if "inCS (Done r)"
      using that by simp
    show "locks s (user_key u) = None \<or> user ?c = u \<and> inCS (pc ?c)"
      if "locks (finally_block s i p r) (user_key u) = None"
      using that at by (simp add: finally_block_def Let_def split: if_splits)
    show "user ?c = u \<and> inCS (pc ?c)"
      if "balance (tables (finally_block s i p r)) u \<noteq> balance (tables s) u"
      using that by (simp add: finally_block_def Let_def)
    show "held_ok (balance (tables (finally_block s i p r)) u) ?c (Done r)"
      by simp
  qed
qed

lemma exclusive_run_call:
  assumes inv: "exclusive u s" and i: "i < length (calls s)"
    and run: "run_call s i = Some s'"
  shows "exclusive u s'"
proof (cases "pc (calls s ! i)")
  case Start
  with run have "s' = loop_check s i (js_add (clock s) (timeoutMs (calls s ! i)))"
    by (simp add: run_call_def)
  with Start show ?thesis by (simp add: exclusive_loop_check [OF inv i])
next
  case (Waiting m p)
  with run have "s' = loop_check s i m"
    by (simp add: run_call_def split: if_splits)
  with Waiting show ?thesis by (simp add: exclusive_loop_check [OF inv i])
next
  case (Selecting p)
  with run have "s' = selected s i p" by (simp add: run_call_def)
  with Selecting show ?thesis by (simp add: exclusive_selected [OF inv i])
next
  case (Putting p n t)
  with run have "s' = put_done s i p n t" by (simp add: run_call_def)
  with Putting show ?thesis by (simp add: exclusive_put_done [OF inv i])
next
  case (Inserting p n t)
  with run have "s' = inserted s i p n t" by (simp add: run_call_def)
  with Inserting show ?thesis by (simp add: exclusive_inserted [OF inv i])
next
  case (Finishing p r)
  with run have "s' = finally_block s i p r" by (simp add: run_call_def)
  with Finishing show ?thesis by (simp add: exclusive_finally_block [OF inv i])
next
  case (Done r)
  with run show ?thesis by (simp add: run_call_def)
qed

lemma exclusive_Tick [simp]: "exclusive u (s\<lparr>clock := t\<rparr>) = exclusive u s"
  by (simp add: exclusive_def)

lemma exclusive_step_event:
  assumes "exclusive u s" "step e s = Some s'" "\<not> hold_timeout_fires [e]"
  shows "exclusive u s'"
proof (cases e)
  case (Run i)
  with assms(2) have "i < length (calls s)" "run_call s i = Some s'"
    by (simp_all split: if_splits)
  with assms(1) show ?thesis by (simp add: exclusive_run_call)
next
  case (Fire tm)
  with assms(3) show ?thesis by (simp add: hold_timeout_fires_def)
next
  case (Tick n)
  with assms show ?thesis by auto
qed

lemma exclusive_exec:
  "exclusive u s \<Longrightarrow> exec es s = Some s' \<Longrightarrow> \<not> hold_timeout_fires es \<Longrightarrow> exclusive u s'"
proof (induction es arbitrary: s)
  case Nil
  then show ?case by simp
next
  case (Cons e es)
  then obtain s1 where 1: "step e s = Some s1" and 2: "exec es s1 = Some s'"
    by (auto split: option.splits)
  from Cons.prems(3) have e: "\<not> hold_timeout_fires [e]" and es: "\<not> hold_timeout_fires es"
    by (simp_all add: hold_timeout_fires_def)
  from exclusive_step_event [OF Cons.prems(1) 1 e] have "exclusive u s1" .
  from Cons.IH [OF this 2 es] show ?case .
qed

lemma exclusive_init:
  assumes "list_all (\<lambda>c. pc c = Start) cs"
  shows "exclusive u (init d now cs)"
proof -
  from assms have "holders u cs = 0"
    by (induction cs) (simp_all add: holders_def)
  moreover have "held_ok b (cs ! j) (pc (cs ! j))" if "j < length cs" for b j
    using assms that by (simp add: list_all_length)
  ultimately show ?thesis by (simp add: exclusive_def init_def)
qed

text \<open>
  The balance of a user changes in one segment only, the one in which a call of
  the user resumes after \<^verbatim>\<open>insertOrUpdate\<close>; and as long as the amounts
  stay within \<open>2\<^sup>5\<^sup>3\<close>, the sums and differences of a serial run are exact.
\<close>

lemma run_call_effect:
  assumes "run_call s i = Some s'" and "i < length (calls s)"
  shows "case pc (calls s ! i) of
           Putting p n t \<Rightarrow>
             balance (tables s') v = (if v = user (calls s ! i) then n else balance (tables s) v)
             \<and> pc (calls s' ! i) = Inserting p n t
         | _ \<Rightarrow> balance (tables s') v = balance (tables s) v
             \<and> wrote (pc (calls s' ! i)) = wrote (pc (calls s ! i))"
  using assms
  by (cases "pc (calls s ! i)")
    (auto simp: run_call_def loop_check_def acquire_fields selected_def put_done_def
      inserted_def finally_block_def Let_def balance_insertOrUpdate wrote_Finishing_Done
      split: option.splits if_splits TransactionType.splits)

lemma amounts_static:
  "amounts u cs =
     (\<Sum>x\<leftarrow>map static cs. case x of (k, v, a, m) \<Rightarrow> if v = u then \<bar>a\<bar> else 0)"
  by (simp add: amounts_def static_def comp_def)

lemma amounts_update [simp]: "amounts u (cs[i := (cs ! i)\<lparr>pc := q\<rparr>]) = amounts u cs"
  by (simp add: amounts_static)

lemma abs_applied_le: "\<bar>applied u cs\<bar> \<le> amounts u cs"
proof (induction cs)
  case Nil
  then show ?case by (simp add: applied_def amounts_def)
next
  case (Cons c cs)
  have "\<bar>signed c\<bar> = \<bar>amt c\<bar>"
    by (simp add: signed_def split: TransactionType.splits)
  with Cons show ?case
    by (auto simp: applied_def amounts_def)
qed

lemma applied_next_bound:
  assumes i: "i < length cs" and u: "user (cs ! i) = u" and w: "\<not> wrote (pc (cs ! i))"
  shows "\<bar>applied u cs + signed (cs ! i)\<bar> \<le> amounts u cs"
proof -
  let ?cs = "cs[i := (cs ! i)\<lparr>pc := Inserting 0 0 0\<rparr>]"
  from applied_update [OF i, of u "Inserting 0 0 0"] u w
  have "applied u ?cs = applied u cs + signed (cs ! i)" by simp
  moreover have "\<bar>applied u ?cs\<bar> \<le> amounts u ?cs" by (rule abs_applied_le)
  ultimately show ?thesis by simp
qed

lemma serial_run_call:
  assumes inv: "serial u b s" and i: "i < length (calls s)"
    and run: "run_call s i = Some s'"
  shows "serial u b s'"
proof -
  let ?c = "calls s ! i"
  from inv have ex: "exclusive u s"
    and bound: "\<bar>b\<bar> + amounts u (calls s) \<le> 9007199254740992"
    and bal: "balance (tables s) u = b + applied u (calls s)"
    by (simp_all add: serial_def)
  from ex i run have ex': "exclusive u s'" by (rule exclusive_run_call)
  from run obtain q where calls: "calls s' = (calls s)[i := ?c\<lparr>pc := q\<rparr>]"
    using run_call_calls by blast
  then have q: "q = pc (calls s' ! i)" using i by simp
  from calls have am: "amounts u (calls s') = amounts u (calls s)" by simp
  have ap: "applied u (calls s') + (if user ?c = u \<and> wrote (pc ?c) then signed ?c else 0) =
            applied u (calls s) + (if user ?c = u \<and> wrote q then signed ?c else 0)"
    unfolding calls by (rule applied_update [OF i])
  have "balance (tables s') u = b + applied u (calls s')"
  proof (cases "\<exists>p n t. pc ?c = Putting p n t")
    case False
    with run_call_effect [OF run i, of u]
    have "balance (tables s') u = balance (tables s) u" "wrote q = wrote (pc ?c)"
      unfolding q by (cases "pc ?c"; simp)+
    with ap bal show ?thesis by simp
  next
    case True
    then obtain p n t where at: "pc ?c = Putting p n t" by blast
    with run_call_effect [OF run i, of u]
    have b': "balance (tables s') u = (if u = user ?c then n else balance (tables s) u)"
      and q': "q = Inserting p n t"
      unfolding q by simp_all
    show ?thesis
    proof (cases "user ?c = u")
      case False
      with b' ap bal show ?thesis by auto
    next
      case True
      from exclusive_held_ok [OF ex i True] at
      have n: "n = (case kind ?c of CHARGE \<Rightarrow> js_add (balance (tables s) u) (amt ?c)
                                  | USE \<Rightarrow> js_sub (balance (tables s) u) (amt ?c))"
        by (simp split: TransactionType.splits)
      from applied_next_bound [OF i True] at
      have "\<bar>applied u (calls s) + signed ?c\<bar> \<le> amounts u (calls s)" by simp
      with bound bal have small: "\<bar>balance (tables s) u + signed ?c\<bar> \<le> 9007199254740992"
        by linarith
      with n have "n = balance (tables s) u + signed ?c"
        by (cases "kind ?c") (simp_all add: signed_def js_add_exact js_sub_exact)
      with b' True ap at q' bal show ?thesis by simp
    qed
  qed
  with ex' bound am show ?thesis by (simp add: serial_def)
qed

lemma requested_static:
  "requested u cs =
     (\<Sum>x\<leftarrow>map static cs. case x of (k, v, a, m) \<Rightarrow>
         if v = u then (case k of CHARGE \<Rightarrow> a | USE \<Rightarrow> - a) else 0)"
  by (simp add: requested_def sum_list_map_filter' static_def signed_def comp_def)

lemma applied_accepted:
  "list_all accepted cs \<Longrightarrow> applied u cs = requested u cs"
proof (induction cs)
  case Nil
  then show ?case by (simp add: applied_def requested_def)
next
  case (Cons c cs)
  from Cons.prems have "accepted c" by simp
  then have "wrote (pc c)"
    by (auto simp: accepted_def split: pc.splits sum.splits)
  with Cons show ?case by (simp add: applied_def requested_def)
qed

lemma serial_Tick [simp]: "serial u b (s\<lparr>clock := t\<rparr>) = serial u b s"
  by (simp add: serial_def)

lemma serial_step_event:
  assumes "serial u b s" "step e s = Some s'" "\<not> hold_timeout_fires [e]"
  shows "serial u b s'"
proof (cases e)
  case (Run i)
  with assms(2) have "i < length (calls s)" "run_call s i = Some s'"
    by (simp_all split: if_splits)
  with assms(1) show ?thesis by (simp add: serial_run_call)
next
  case (Fire tm)
  with assms(3) show ?thesis by (simp add: hold_timeout_fires_def)
next
  case (Tick n)
  with assms show ?thesis by auto
qed

lemma serial_exec:
  "serial u b s \<Longrightarrow> exec es s = Some s' \<Longrightarrow> \<not> hold_timeout_fires es \<Longrightarrow> serial u b s'"
proof (induction es arbitrary: s)
  case Nil
  then show ?case by simp
next
  case (Cons e es)
  then obtain s1 where 1: "step e s = Some s1" and 2: "exec es s1 = Some s'"
    by (auto split: option.splits)
  from Cons.prems(3) have e: "\<not> hold_timeout_fires [e]" and es: "\<not> hold_timeout_fires es"
    by (simp_all add: hold_timeout_fires_def)
  from serial_step_event [OF Cons.prems(1) 1 e] have "serial u b s1" .
  from Cons.IH [OF this 2 es] show ?case .
qed

lemma serial_init:
  assumes "list_all (\<lambda>c. pc c = Start) cs"
    and "\<bar>balance d u\<bar> + amounts u cs \<le> 9007199254740992"
  shows "serial u (balance d u) (init d now cs)"
proof -
  from assms(1) have "applied u cs = 0"
    by (induction cs) (simp_all add: applied_def)
  moreover from assms(1) have "exclusive u (init d now cs)" by (rule exclusive_init)
  ultimately show ?thesis using assms(2) by (simp add: serial_def init_def)
qed

text \<open>
  C1, as the code has it.  Take calls of \<^verbatim>\<open>chargePoint\<close> and
  \<^verbatim>\<open>usePoint\<close>, of any users, made at any time and interleaved in any
  way, in a run in which no hold timer fires, and a user whose initial balance
  and amounts do not add up to more than \<open>2\<^sup>5\<^sup>3\<close> in magnitude.  If all
  calls are accepted, the balance of that user ends as its initial balance plus
  the sum of its charges minus the sum of its uses.
\<close>

theorem serialized_without_hold_timeout:
  assumes "list_all (\<lambda>c. pc c = Start) cs"
    and "exec es (init d now cs) = Some s"
    and "\<not> hold_timeout_fires es"
    and "list_all accepted (calls s)"
    and "\<bar>balance d u\<bar> + amounts u cs \<le> 9007199254740992"
  shows "balance (tables s) u = balance d u + requested u cs"
proof -
  have "serial u (balance d u) s"
    using serial_init [OF assms(1,5)] assms(2,3) by (rule serial_exec)
  then have "balance (tables s) u = balance d u + applied u (calls s)"
    by (simp add: serial_def)
  also have "applied u (calls s) = requested u (calls s)"
    using assms(4) by (rule applied_accepted)
  also have "requested u (calls s) = requested u cs"
    using exec_static [OF assms(2)] by (simp add: requested_static init_def)
  finally show ?thesis .
qed

theorem serialized_without_hold_timeout_witness:
  "\<exists>s. exec [Run 0, Run 1, Run 2, Tick 10, Run 0, Run 2, Run 0, Tick 5, Run 2, Run 0, Run 0,
             Run 1, Run 2, Run 1, Run 2, Run 1, Run 1, Run 1]
            (init empty_db 0 [chargePoint 1 1000, usePoint 1 300, chargePoint 2 2000]) = Some s
       \<and> list_all accepted (calls s)
       \<and> balance (tables s) 1 = 700"
proof -
  let ?cs = "[chargePoint 1 1000, usePoint 1 300, chargePoint 2 2000]"
  let ?es = "[Run 0, Run 1, Run 2, Tick 10, Run 0, Run 2, Run 0, Tick 5, Run 2, Run 0, Run 0,
             Run 1, Run 2, Run 1, Run 2, Run 1, Run 1, Run 1]"
  have fresh: "list_all (\<lambda>c. pc c = Start) ?cs"
    by (simp add: chargePoint_def usePoint_def withLock_def)
  have quiet: "\<not> hold_timeout_fires ?es"
    by (simp add: hold_timeout_fires_def)
  have small: "\<bar>balance empty_db 1\<bar> + amounts 1 ?cs \<le> 9007199254740992"
    by (simp add: amounts_def chargePoint_def usePoint_def withLock_def)
  have "map_option (\<lambda>s. list_all accepted (calls s)) (exec ?es (init empty_db 0 ?cs)) = Some True"
    by code_simp
  then obtain s where run: "exec ?es (init empty_db 0 ?cs) = Some s"
    and acc: "list_all accepted (calls s)"
    by auto
  have "requested 1 ?cs = 700"
    by (simp add: requested_def signed_def chargePoint_def usePoint_def withLock_def)
  with serialized_without_hold_timeout [OF fresh run quiet acc small]
  have "balance (tables s) 1 = 700" by simp
  with run acc show ?thesis by blast
qed

text \<open>
  C1, as the claim has it, fails.  Two charges of 100 and 50 for user 1: the
  first reads the balance 0, and its write is still outstanding when its hold
  timer fires after 5000 ms; the second call wakes, takes the key, reads 0 as
  well; both write, both are accepted, and the balance ends at 50, not 150.
  And a charge of 1 on a balance of \<open>2\<^sup>5\<^sup>3\<close>, made on its own, is accepted
  and leaves the balance at \<open>2\<^sup>5\<^sup>3\<close>.
\<close>

theorem lost_update_counterexample:
  "map_option (\<lambda>s. (list_all accepted (calls s), balance (tables s) 1))
     (exec [Run 0, Run 1, Run 0, Tick 5000, Fire 0, Run 1, Run 1, Run 0, Run 1, Run 1, Run 1,
            Run 0, Run 0]
        (init empty_db 0 [chargePoint 1 100, chargePoint 1 50])) = Some (True, 50)
   \<and> balance empty_db 1 + requested 1 [chargePoint 1 100, chargePoint 1 50] = 150
   \<and> map_option (\<lambda>s. (list_all accepted (calls s), balance (tables s) 1))
     (exec [Run 0, Run 0, Run 0, Run 0, Run 0]
        (init \<lparr>userPointTable = Map.empty(1 \<mapsto> \<lparr>uid = 1, point = 9007199254740992, updateMillis = 0\<rparr>),
               pointHistoryTable = []\<rparr> 0 [chargePoint 1 1])) = Some (True, 9007199254740992)"
  by code_simp

section \<open>The one time parameter of the lock manager\<close>

lemma wait_budget_Start:
  "pc c = Start \<Longrightarrow>
   wait_budget c = (if round53 (timeoutMs c) < 0 then None else Some (round53 (timeoutMs c)))"
  by (simp add: wait_budget_def wait_deadline_def init_def chargePoint_def withLock_def
      run_call_def loop_check_def acquire_fields js_add_def)

lemma hold_budget_Start:
  "pc c = Start \<Longrightarrow> hold_budget c = Some (setTimeout_delay (timeoutMs c))"
  by (simp add: hold_budget_def hold_timer_due_def init_def run_call_def loop_check_def
      acquire_fields)

text \<open>The delay that \<^verbatim>\<open>setTimeout\<close> makes of a number is the delay it makes
  of the number rounded, when that is not negative.\<close>

lemma setTimeout_delay_round53:
  assumes "\<not> round53 ms < 0"
  shows "setTimeout_delay (round53 ms) = setTimeout_delay ms"
proof (cases "\<bar>ms\<bar> \<le> 9007199254740992")
  case True
  then show ?thesis by (simp add: round53_exact)
next
  case False
  then obtain k :: int where k: "4503599627370496 \<le> k" and r: "round53 ms = sgn ms * k"
    using round53_large [of ms] by auto
  from assms r k False have "0 < ms" by (cases "0 < ms") (auto simp: sgn_if split: if_splits)
  with False r k show ?thesis by (simp add: setTimeout_delay_def)
qed

lemma budgets_linked:
  assumes "pc c = Start" and "wait_budget c = Some w"
  shows "hold_budget c = Some (setTimeout_delay w)"
proof -
  from assms have "\<not> round53 (timeoutMs c) < 0" and "w = round53 (timeoutMs c)"
    by (auto simp: wait_budget_Start split: if_splits)
  with assms(1) show ?thesis
    by (simp add: hold_budget_Start setTimeout_delay_round53)
qed

text \<open>
  C9, as the code has it.  \<^verbatim>\<open>withLock\<close> has one time parameter,
  \<^verbatim>\<open>timeoutMs\<close>, whatever its value.  A call that finds the key held
  waits with the deadline of the call time plus \<^verbatim>\<open>timeoutMs\<close> (a sum
  that is exact up to \<open>2\<^sup>5\<^sup>3\<close>), and fails at once when
  \<^verbatim>\<open>timeoutMs\<close> is negative.  A call that takes the
  key arms its hold timer with \<^verbatim>\<open>setTimeout\<close> for the same
  \<^verbatim>\<open>timeoutMs\<close>: the timer is due \<^verbatim>\<open>timeoutMs\<close> after that
  moment for a value from 1 to \<open>2\<^sup>3\<^sup>1 - 1\<close>, and 1 ms after it for any
  other value.  So the bound on the wait fixes the bound on the hold: a call
  with the wait bound \<open>w\<close> has the hold bound \<open>w\<close> when \<open>w\<close> is
  from 1 to \<open>2\<^sup>3\<^sup>1 - 1\<close>, and 1 otherwise.
\<close>

theorem withLock_one_timeout:
  assumes "i < length (calls s)" and "step (Run i) s = Some s'"
  shows "(pc (calls s ! i) = Start \<longrightarrow> locks s (user_key (user (calls s ! i))) \<noteq> None \<longrightarrow>
            \<bar>clock s + timeoutMs (calls s ! i)\<bar> \<le> 9007199254740992 \<longrightarrow>
            pc (calls s' ! i) =
              (if timeoutMs (calls s ! i) < 0
               then Done (Inl (LockTimeout (user_key (user (calls s ! i)))))
               else Waiting (clock s + timeoutMs (calls s ! i))
                      (the (locks s (user_key (user (calls s ! i)))))))
       \<and> (\<not> inCS (pc (calls s ! i)) \<longrightarrow> locks s (user_key (user (calls s ! i))) = None \<longrightarrow>
            hold_timer_due s' (user_key (user (calls s ! i))) =
              Some (clock s + (if 1 \<le> timeoutMs (calls s ! i) \<and> timeoutMs (calls s ! i) \<le> 2147483647
                               then timeoutMs (calls s ! i) else 1)))
       \<and> (pc c = Start \<longrightarrow> wait_budget c = Some w \<longrightarrow>
            hold_budget c = Some (if 1 \<le> w \<and> w \<le> 2147483647 then w else 1))"
proof (intro conjI impI)
  assume "pc (calls s ! i) = Start" "locks s (user_key (user (calls s ! i))) \<noteq> None"
    "\<bar>clock s + timeoutMs (calls s ! i)\<bar> \<le> 9007199254740992"
  with assms show "pc (calls s' ! i) =
              (if timeoutMs (calls s ! i) < 0
               then Done (Inl (LockTimeout (user_key (user (calls s ! i)))))
               else Waiting (clock s + timeoutMs (calls s ! i))
                      (the (locks s (user_key (user (calls s ! i))))))"
    by (auto simp: run_call_def loop_check_def js_add_exact)
next
  assume out: "\<not> inCS (pc (calls s ! i))" and free: "locks s (user_key (user (calls s ! i))) = None"
  from assms(2) have run: "run_call s i = Some s'" by (simp split: if_splits)
  from out run free have "s' = acquire s i"
    by (cases "pc (calls s ! i)") (simp_all add: run_call_def loop_check_def split: if_splits)
  then show "hold_timer_due s' (user_key (user (calls s ! i))) =
      Some (clock s + (if 1 \<le> timeoutMs (calls s ! i) \<and> timeoutMs (calls s ! i) \<le> 2147483647
                               then timeoutMs (calls s ! i) else 1))"
    by (auto simp: acquire_fields hold_timer_due_def setTimeout_delay_def)
next
  assume "pc c = Start" "wait_budget c = Some w"
  then have "hold_budget c = Some (setTimeout_delay w)" by (rule budgets_linked)
  then show "hold_budget c = Some (if 1 \<le> w \<and> w \<le> 2147483647 then w else 1)"
    by (auto simp: setTimeout_delay_def)
qed

theorem withLock_one_timeout_witness:
  "\<exists>s s'. exec [Run 0] (init empty_db 0 [chargePoint 1 10, withLock USE 1 5 100]) = Some s
     \<and> step (Run 1) s = Some s' \<and> pc (calls s' ! 1) = Waiting 100 0
     \<and> hold_timer_due s (user_key 1) = Some 5000
     \<and> hold_budget (withLock USE 1 5 100) = Some 100"
proof -
  let ?s0 = "init empty_db 0 [chargePoint 1 10, withLock USE 1 5 100]"
  have ex0: "exec [Run 0] ?s0 \<noteq> None" by code_simp
  then obtain s where s: "exec [Run 0] ?s0 = Some s" by auto
  then have st0: "step (Run 0) ?s0 = Some s" by (simp only: exec_single)
  have "map_option (\<lambda>s. step (Run 1) s \<noteq> None) (exec [Run 0] ?s0) = Some True" by code_simp
  with s obtain s' where s': "step (Run 1) s = Some s'" by auto
  have facts: "map_option (\<lambda>s. (length (calls s), timeoutMs (calls s ! 1), pc (calls s ! 1),
        user (calls s ! 1), locks s (user_key 1), clock s)) (exec [Run 0] ?s0)
      = Some (2, 100, Start, 1, Some 0, 0)"
    by code_simp
  with s have f: "length (calls s) = 2" "timeoutMs (calls s ! 1) = 100" "pc (calls s ! 1) = Start"
    "user (calls s ! 1) = 1" "locks s (user_key 1) = Some 0" "clock s = 0"
    by simp_all
  have g: "length (calls ?s0) = 2" "timeoutMs (calls ?s0 ! 0) = 5000" "pc (calls ?s0 ! 0) = Start"
    "user (calls ?s0 ! 0) = 1" "locks ?s0 (user_key 1) = None" "clock ?s0 = 0"
    by (simp_all add: init_def chargePoint_def withLock_def)
  have w: "pc (withLock USE 1 5 100) = Start" "wait_budget (withLock USE 1 5 100) = Some 100"
    by (simp_all add: wait_budget_Start withLock_def round53_def)
  from withLock_one_timeout [of 1 s s' "withLock USE 1 5 100" 100] f s'
  have "pc (calls s' ! 1) = Waiting 100 0" by simp
  moreover from withLock_one_timeout [of 0 ?s0 s "withLock USE 1 5 100" 100] g st0
  have "hold_timer_due s (user_key 1) = Some 5000" by simp
  moreover from withLock_one_timeout [of 0 ?s0 s "withLock USE 1 5 100" 100] g st0 w
  have "hold_budget (withLock USE 1 5 100) = Some 100" by simp
  ultimately show ?thesis using s s' by blast
qed

text \<open>
  C9, as the claim has it, fails: the call with the parameter 100 has 100 for
  both bounds, and no call has a wait bound of 100 and a hold bound of 5000.
\<close>

theorem two_timeouts_counterexample:
  "wait_budget (withLock CHARGE 1 20 100) = Some 100
   \<and> hold_budget (withLock CHARGE 1 20 100) = Some 100
   \<and> \<not> (\<exists>c. pc c = Start \<and> wait_budget c = Some 100 \<and> hold_budget c = Some 5000)"
proof -
  have "\<not> (wait_budget c = Some 100 \<and> hold_budget c = Some 5000)" if "pc c = Start" for c
    using budgets_linked [OF that, of 100] by (auto simp: setTimeout_delay_def)
  moreover have "pc (withLock CHARGE 1 20 100) = Start" by (simp add: withLock_def)
  moreover from this have "wait_budget (withLock CHARGE 1 20 100) = Some 100"
    by (simp add: wait_budget_Start withLock_def round53_def)
  ultimately show ?thesis
    using budgets_linked [of "withLock CHARGE 1 20 100" 100]
    by (auto simp: setTimeout_delay_def)
qed

section \<open>Release after the hold timer has fired\<close>

text \<open>
  C8 fails on the code.  Two charges for user 1.  The hold timer of the first
  call fires after 5000 ms while its operation is still running; the second
  call wakes and takes the key, with promise 1 and timer 1, due at 10000.  When
  the first call completes, its \<^verbatim>\<open>finally\<close> block looks the timer up
  in \<^verbatim>\<open>timeouts\<close> by the key: it clears timer 1 and deletes the entries
  of the second call from \<^verbatim>\<open>timeouts\<close> and \<^verbatim>\<open>locks\<close>, while the
  second call is still inside its critical section.
\<close>

theorem finally_block_removes_later_holder:
  "map_option
     (\<lambda>s. (pc (calls s ! 1), locks s (user_key 1), timeouts s (user_key 1), timers s 0, timers s 1,
           map_option (\<lambda>s'. (pc (calls s' ! 0), pc (calls s' ! 1), locks s' (user_key 1),
                              timeouts s' (user_key 1), timers s' 1))
             (step (Run 0) s)))
     (exec [Run 0, Run 1, Tick 5000, Fire 0, Run 1, Run 0, Run 0, Run 0]
        (init empty_db 0 [chargePoint 1 100, chargePoint 1 50]))
   = Some (Selecting 1, Some 1, Some 1, None, Some (10000, ''user:1'', 1),
       Some (Done (Inr \<lparr>uid = 1, point = 100, updateMillis = 5000\<rparr>), Selecting 1, None, None, None))"
  by code_simp

section \<open>Giving up the wait\<close>

lemma sane_init: "list_all (\<lambda>c. pc c = Start) cs \<Longrightarrow> sane (init d now cs)"
  by (simp add: sane_def init_def list_all_length)

lemma sane_update:
  assumes "sane s" and "calls s' = (calls s)[i := (calls s ! i)\<lparr>pc := q\<rparr>]"
    and "\<And>p k. q \<noteq> Finishing p (Inl (LockTimeout k))"
  shows "sane s'"
  unfolding sane_def
proof (intro allI impI)
  fix j p k
  assume "j < length (calls s')"
  with assms show "pc (calls s' ! j) \<noteq> Finishing p (Inl (LockTimeout k))"
    by (cases "j = i") (auto simp: sane_def)
qed

lemma sane_run_call:
  assumes "sane s" and "run_call s i = Some s'" and i: "i < length (calls s)"
  shows "sane s'"
proof (cases "pc (calls s ! i)")
  case Start
  with assms(2) have s': "s' = loop_check s i (js_add (clock s) (timeoutMs (calls s ! i)))"
    by (simp add: run_call_def)
  show ?thesis
  proof (cases "locks s (user_key (user (calls s ! i)))")
    case None
    with s' have "s' = acquire s i" by (simp add: loop_check_def)
    then show ?thesis
      by (intro sane_update [OF assms(1)])
        (auto simp: acquire_fields invalid_amount_def split: TransactionType.splits if_splits)
  next
    case (Some p)
    with s' show ?thesis
      by (intro sane_update [OF assms(1), where i = i
            and q = "if clock s > js_add (clock s) (timeoutMs (calls s ! i))
                     then Done (Inl (LockTimeout (user_key (user (calls s ! i)))))
                     else Waiting (js_add (clock s) (timeoutMs (calls s ! i))) p"])
        (auto simp: loop_check_def)
  qed
next
  case (Waiting m p)
  with assms(2) have s': "s' = loop_check s i m"
    by (simp add: run_call_def split: if_splits)
  show ?thesis
  proof (cases "locks s (user_key (user (calls s ! i)))")
    case None
    with s' have "s' = acquire s i" by (simp add: loop_check_def)
    then show ?thesis
      by (intro sane_update [OF assms(1)])
        (auto simp: acquire_fields invalid_amount_def split: TransactionType.splits if_splits)
  next
    case (Some p')
    with s' show ?thesis
      by (intro sane_update [OF assms(1), where i = i
            and q = "if clock s > m
                     then Done (Inl (LockTimeout (user_key (user (calls s ! i)))))
                     else Waiting m p'"])
        (auto simp: loop_check_def)
  qed
next
  case (Selecting p)
  with assms(2) have "s' = selected s i p" by (simp add: run_call_def)
  with i show ?thesis
    by (intro sane_update [OF assms(1), where i = i and q = "pc (calls s' ! i)"])
      (auto simp: selected_def Let_def split: TransactionType.splits if_splits)
next
  case (Putting p n t)
  with assms(2) have "s' = put_done s i p n t" by (simp add: run_call_def)
  then show ?thesis
    by (intro sane_update [OF assms(1), where i = i and q = "Inserting p n t"])
      (auto simp: put_done_def Let_def)
next
  case (Inserting p n t)
  with assms(2) have "s' = inserted s i p n t" by (simp add: run_call_def)
  then show ?thesis
    by (intro sane_update [OF assms(1), where i = i
          and q = "Finishing p (Inr \<lparr>uid = user (calls s ! i), point = n, updateMillis = t\<rparr>)"])
      (auto simp: inserted_def Let_def)
next
  case (Finishing p r)
  with assms(2) have "s' = finally_block s i p r" by (simp add: run_call_def)
  then show ?thesis
    by (intro sane_update [OF assms(1), where i = i and q = "Done r"])
      (auto simp: finally_block_def Let_def)
next
  case (Done r)
  with assms(2) show ?thesis by (simp add: run_call_def)
qed

lemma sane_step: "sane s \<Longrightarrow> step e s = Some s' \<Longrightarrow> sane s'"
proof (cases e)
  case (Run i)
  assume "sane s" "step e s = Some s'"
  with Run show ?thesis by (auto simp: sane_run_call split: if_splits)
next
  case (Fire tm)
  assume "sane s" "step e s = Some s'"
  with Fire show ?thesis by (auto simp: fire_def sane_def split: option.splits if_splits)
next
  case (Tick n)
  assume "sane s" "step e s = Some s'"
  with Tick show ?thesis by (auto simp: sane_def)
qed

lemma sane_exec: "sane s \<Longrightarrow> exec es s = Some s' \<Longrightarrow> sane s'"
proof (induction es arbitrary: s)
  case Nil
  then show ?case by simp
next
  case (Cons e es)
  then obtain s1 where 1: "step e s = Some s1" and 2: "exec es s1 = Some s'"
    by (auto split: option.splits)
  from sane_step [OF Cons.prems(1) 1] have "sane s1" .
  from Cons.IH [OF this 2] show ?case .
qed

lemma not_started_cases:
  "not_started q \<Longrightarrow> q = Start \<or> (\<exists>m p. q = Waiting m p) \<or> (\<exists>k. q = Done (Inl (LockTimeout k)))"
  by (induction q rule: not_started.induct) simp_all

lemma loop_check_not_started:
  assumes "not_started (pc (calls (loop_check s i m) ! i))" and i: "i < length (calls s)"
  shows "locks s (user_key (user (calls s ! i))) \<noteq> None
       \<and> loop_check s i m = set_pc s i (pc (calls (loop_check s i m) ! i))
       \<and> (case pc (calls (loop_check s i m) ! i) of
             Waiting m' p \<Rightarrow> m' = m \<and> \<not> m < clock s
               \<and> locks s (user_key (user (calls s ! i))) = Some p
           | Done r \<Rightarrow> r = Inl (LockTimeout (user_key (user (calls s ! i)))) \<and> m < clock s
           | _ \<Rightarrow> False)"
proof (cases "locks s (user_key (user (calls s ! i)))")
  case None
  with assms show ?thesis by (simp add: loop_check_def acquire_fields split: if_splits)
next
  case (Some p)
  with i show ?thesis by (simp add: loop_check_def)
qed

lemma run_call_not_started:
  assumes sane: "sane s" and i: "i < length (calls s)"
    and run: "run_call s i = Some s'"
    and ns: "not_started (pc (calls s' ! i))"
  shows "not_started (pc (calls s ! i))
       \<and> locks s (user_key (user (calls s ! i))) \<noteq> None
       \<and> s' = set_pc s i (pc (calls s' ! i))
       \<and> (case pc (calls s' ! i) of
             Waiting m p \<Rightarrow> m = next_deadline s i \<and> \<not> m < clock s
               \<and> locks s (user_key (user (calls s ! i))) = Some p
           | Done r \<Rightarrow> r = Inl (LockTimeout (user_key (user (calls s ! i))))
               \<and> next_deadline s i < clock s
           | _ \<Rightarrow> False)"
proof (cases "pc (calls s ! i)")
  case Start
  with run have s': "s' = loop_check s i (js_add (clock s) (timeoutMs (calls s ! i)))"
    by (simp add: run_call_def)
  with loop_check_not_started [of s i "js_add (clock s) (timeoutMs (calls s ! i))"] ns i Start
  show ?thesis by (auto simp: next_deadline_def split: pc.splits)
next
  case (Waiting m p)
  with run have s': "s' = loop_check s i m"
    by (simp add: run_call_def split: if_splits)
  with loop_check_not_started [of s i m] ns i Waiting
  show ?thesis by (auto simp: next_deadline_def split: pc.splits)
next
  case (Selecting p)
  with run i ns show ?thesis
    by (auto simp: run_call_def selected_def Let_def split: TransactionType.splits if_splits)
next
  case (Putting p n t)
  with run i ns show ?thesis by (auto simp: run_call_def put_done_def Let_def)
next
  case (Inserting p n t)
  with run i ns show ?thesis by (auto simp: run_call_def inserted_def Let_def)
next
  case (Finishing p r)
  with run i have "pc (calls s' ! i) = Done r"
    by (auto simp: run_call_def finally_block_def Let_def)
  with ns obtain k where "r = Inl (LockTimeout k)"
    by (auto dest: not_started_cases)
  with Finishing sane i show ?thesis by (auto simp: sane_def)
next
  case (Done r)
  with run show ?thesis by (simp add: run_call_def)
qed

lemma step_not_started_back:
  assumes "sane s" and "step e s = Some s'" and "not_started (pc (calls s' ! i))"
  shows "not_started (pc (calls s ! i))"
proof (cases e)
  case (Run j)
  with assms(2) have j: "j < length (calls s)" and run: "run_call s j = Some s'"
    by (simp_all split: if_splits)
  show ?thesis
  proof (cases "j = i")
    case True
    with run_call_not_started [OF assms(1) j run] assms(3) show ?thesis by simp
  next
    case False
    from run obtain q where "calls s' = (calls s)[j := (calls s ! j)\<lparr>pc := q\<rparr>]"
      using run_call_calls by blast
    with False assms(3) show ?thesis by simp
  qed
next
  case (Fire tm)
  with assms show ?thesis by (auto simp: fire_def split: option.splits if_splits)
next
  case (Tick n)
  with assms show ?thesis by auto
qed

lemma exec_not_started_back:
  "sane s \<Longrightarrow> exec es s = Some s' \<Longrightarrow> not_started (pc (calls s' ! i)) \<Longrightarrow>
   not_started (pc (calls s ! i))"
proof (induction es arbitrary: s)
  case Nil
  then show ?case by simp
next
  case (Cons e es)
  then obtain s1 where 1: "step e s = Some s1" and 2: "exec es s1 = Some s'"
    by (auto split: option.splits)
  from sane_step [OF Cons.prems(1) 1] have "sane s1" .
  from Cons.IH [OF this 2 Cons.prems(3)] have "not_started (pc (calls s1 ! i))" .
  with Cons.prems(1) 1 show ?case by (rule step_not_started_back)
qed

text \<open>
  The converse: a test of the wait loop that finds the key held fails when the
  clock is past the deadline, and waits on otherwise.
\<close>

lemma lock_timeout_when_held:
  assumes "i < length (calls s)"
    and "pc (calls s ! i) = Start \<or> (\<exists>m p. pc (calls s ! i) = Waiting m p \<and> p \<in> resolved s)"
    and "locks s (user_key (user (calls s ! i))) \<noteq> None"
  shows "step (Run i) s =
           Some (set_pc s i (if next_deadline s i < clock s
                             then Done (Inl (LockTimeout (user_key (user (calls s ! i)))))
                             else Waiting (next_deadline s i)
                                    (the (locks s (user_key (user (calls s ! i)))))))"
  using assms by (auto simp: run_call_def loop_check_def next_deadline_def)

text \<open>
  C7, as the code has it.  Take a call that ends with the error of the lock
  manager, and any of its segments in the run.  That segment is a test of the
  wait loop that finds the key held: it either waits on, the clock not being
  past the deadline, or fails, the clock being past it.  It changes the program
  counter of the call and nothing else: not the lock maps, not the timers, not
  the tables.  So the call has never started its operation.
\<close>

theorem lock_timeout_no_effect:
  assumes fresh: "list_all (\<lambda>c. pc c = Start) cs"
    and run: "exec (es1 @ Run i # es2) (init d now cs) = Some s"
    and out: "pc (calls s ! i) = Done (Inl (LockTimeout k))"
  shows "\<exists>s1 s2. exec es1 (init d now cs) = Some s1 \<and> step (Run i) s1 = Some s2
           \<and> exec es2 s2 = Some s
           \<and> locks s1 (user_key (user (calls s1 ! i))) \<noteq> None
           \<and> (case pc (calls s2 ! i) of
                 Waiting m p \<Rightarrow> m = next_deadline s1 i \<and> \<not> m < clock s1
               | Done r \<Rightarrow> r = Inl (LockTimeout (user_key (user (calls s1 ! i))))
                   \<and> next_deadline s1 i < clock s1
               | _ \<Rightarrow> False)
           \<and> s2 = set_pc s1 i (pc (calls s2 ! i))
           \<and> tables s2 = tables s1 \<and> locks s2 = locks s1 \<and> timeouts s2 = timeouts s1
           \<and> timers s2 = timers s1 \<and> resolved s2 = resolved s1"
proof -
  from run obtain s1 s2 where 1: "exec es1 (init d now cs) = Some s1"
    and 2: "step (Run i) s1 = Some s2" and 3: "exec es2 s2 = Some s"
    by (auto simp: exec_append split: option.splits)
  from sane_init [OF fresh] 1 have sane1: "sane s1" by (rule sane_exec)
  from sane1 2 have sane2: "sane s2" by (rule sane_step)
  from out have "not_started (pc (calls s ! i))" by simp
  with sane2 3 have ns: "not_started (pc (calls s2 ! i))" by (rule exec_not_started_back)
  from 2 have i: "i < length (calls s1)" and r: "run_call s1 i = Some s2"
    by (simp_all split: if_splits)
  from run_call_not_started [OF sane1 i r ns]
  have a: "locks s1 (user_key (user (calls s1 ! i))) \<noteq> None"
    and b: "s2 = set_pc s1 i (pc (calls s2 ! i))"
    and c: "case pc (calls s2 ! i) of
                 Waiting m p \<Rightarrow> m = next_deadline s1 i \<and> \<not> m < clock s1
               | Done r \<Rightarrow> r = Inl (LockTimeout (user_key (user (calls s1 ! i))))
                   \<and> next_deadline s1 i < clock s1
               | _ \<Rightarrow> False"
    by (auto split: pc.splits)
  from b have "tables s2 = tables s1 \<and> locks s2 = locks s1 \<and> timeouts s2 = timeouts s1
           \<and> timers s2 = timers s1 \<and> resolved s2 = resolved s1"
    by (metis set_pc_fields(2-6))
  with 1 2 3 a b c show ?thesis by blast
qed

theorem lock_timeout_no_effect_witness:
  "\<exists>s1 s2. exec [Run 0, Run 1, Run 2, Tick 3000, Run 0, Run 0, Run 0, Run 0, Run 1]
              (init empty_db 0 [chargePoint 1 10, chargePoint 1 20, withLock CHARGE 1 20 100])
            = Some s1
     \<and> step (Run 2) s1 = Some s2
     \<and> pc (calls s2 ! 2) = Done (Inl (LockTimeout ''user:1''))
     \<and> next_deadline s1 2 < clock s1
     \<and> tables s2 = tables s1 \<and> locks s2 = locks s1 \<and> timeouts s2 = timeouts s1
     \<and> timers s2 = timers s1 \<and> resolved s2 = resolved s1"
proof -
  let ?cs = "[chargePoint 1 10, chargePoint 1 20, withLock CHARGE 1 20 100]"
  let ?es1 = "[Run 0, Run 1, Run 2, Tick 3000, Run 0, Run 0, Run 0, Run 0, Run 1]"
  have fresh: "list_all (\<lambda>c. pc c = Start) ?cs"
    by (simp add: chargePoint_def withLock_def)
  have "map_option (\<lambda>s. pc (calls s ! 2)) (exec (?es1 @ Run 2 # []) (init empty_db 0 ?cs))
          = Some (Done (Inl (LockTimeout ''user:1'')))"
    by code_simp
  then obtain s where run: "exec (?es1 @ Run 2 # []) (init empty_db 0 ?cs) = Some s"
    and out: "pc (calls s ! 2) = Done (Inl (LockTimeout ''user:1''))"
    by auto
  from lock_timeout_no_effect [OF fresh run out]
  obtain s1 s2 where 1: "exec ?es1 (init empty_db 0 ?cs) = Some s1"
    and 2: "step (Run 2) s1 = Some s2" and 3: "exec [] s2 = Some s"
    and c: "case pc (calls s2 ! 2) of
                 Waiting m p \<Rightarrow> m = next_deadline s1 2 \<and> \<not> m < clock s1
               | Done r \<Rightarrow> r = Inl (LockTimeout (user_key (user (calls s1 ! 2))))
                   \<and> next_deadline s1 2 < clock s1
               | _ \<Rightarrow> False"
    and same: "tables s2 = tables s1" "locks s2 = locks s1" "timeouts s2 = timeouts s1"
      "timers s2 = timers s1" "resolved s2 = resolved s1"
    by blast
  from 3 have "s2 = s" by simp
  with out c have "next_deadline s1 2 < clock s1" by simp
  with 1 2 out same \<open>s2 = s\<close> show ?thesis by blast
qed

text \<open>
  C7, as the claim has it, fails: the deadline is tested only when the call
  wakes up and finds the key still held.  A call with \<^verbatim>\<open>timeoutMs\<close> 100,
  made at time 0 while a charge holds the key, has the deadline 100; the
  charge completes at time 3000; the call wakes, finds the key free, and runs
  its operation to the end, 2900 ms past its deadline.  And with the default of
  5000 for both calls: the second call has the deadline 5000, the hold timer of
  the first fires at 5001, and the second call takes the key.
\<close>

theorem late_waiter_runs_counterexample:
  "map_option
     (\<lambda>s. (wait_deadline s 1, clock s,
           map_option (\<lambda>s'. pc (calls s' ! 1)) (exec [Run 1] s),
           map_option (\<lambda>s'. (pc (calls s' ! 1), balance (tables s') 1))
             (exec [Run 1, Run 1, Run 1, Run 1, Run 1] s)))
     (exec [Run 0, Run 1, Tick 3000, Run 0, Run 0, Run 0, Run 0]
        (init empty_db 0 [chargePoint 1 10, withLock CHARGE 1 20 100]))
   = Some (Some 100, 3000, Some (Selecting 1),
       Some (Done (Inr \<lparr>uid = 1, point = 30, updateMillis = 3000\<rparr>), 30))
   \<and> map_option
     (\<lambda>s. (wait_deadline s 1, clock s,
           map_option (\<lambda>s'. pc (calls s' ! 1)) (exec [Run 1] s)))
     (exec [Run 0, Run 1, Tick 5001, Fire 0]
        (init empty_db 0 [chargePoint 1 10, chargePoint 1 20]))
   = Some (Some 5000, 5001, Some (Selecting 1))"
  by code_simp

section \<open>A call on its own runs its operation\<close>

text \<open>
  A call that finds its key free and runs its segments with no other event in
  between settles with what the closure of its kind returns on the tables, and
  leaves the tables as the closure leaves them, and the key free.
\<close>

lemma uncontended_call:
  assumes i: "i < length (calls s)" and start: "pc (calls s ! i) = Start"
    and free: "locks s (user_key (user (calls s ! i))) = None"
  shows "\<exists>s'. settle 5 i s = Some s'
           \<and> (pc (calls s' ! i), tables s') =
               (case operation (kind (calls s ! i)) (tables s) (user (calls s ! i))
                       (amt (calls s ! i)) (clock s) (clock s) (clock s) of
                  (r, d) \<Rightarrow> (Done r, d))
           \<and> locks s' (user_key (user (calls s ! i))) = None"
proof (cases "amt (calls s ! i) \<le> 0")
  case True
  with i start free show ?thesis
    by (cases "kind (calls s ! i)")
      (simp_all add: eval_nat_numeral run_call_def loop_check_def acquire_fields
        finally_block_def Let_def operation_def chargePoint_op_def usePoint_op_def
        invalid_amount_def)
next
  case False
  show ?thesis
  proof (cases "kind (calls s ! i)")
    case CHARGE
    with False i start free show ?thesis
      by (simp add: eval_nat_numeral run_call_def loop_check_def acquire_fields selected_def
          put_done_def inserted_def finally_block_def Let_def operation_def chargePoint_op_def)
  next
    case USE
    with False i start free show ?thesis
      by (simp add: eval_nat_numeral run_call_def loop_check_def acquire_fields selected_def
          put_done_def inserted_def finally_block_def Let_def operation_def usePoint_op_def)
  qed
qed

lemma call_alone_operation:
  assumes "pc c = Start"
  shows "call_alone d now c = Some (operation (kind c) d (user c) (amt c) now now now)"
proof -
  let ?s = "init d now [c]"
  have "0 < length (calls ?s)" "pc (calls ?s ! 0) = Start"
    "locks ?s (user_key (user (calls ?s ! 0))) = None"
    using assms by (simp_all add: init_def)
  from uncontended_call [OF this] obtain s' where "settle 5 0 ?s = Some s'"
    and "(pc (calls s' ! 0), tables s') =
           (case operation (kind c) d (user c) (amt c) now now now of (r, d) \<Rightarrow> (Done r, d))"
    by (auto simp: init_def)
  then show ?thesis
    by (cases "operation (kind c) d (user c) (amt c) now now now")
      (simp add: call_alone_def)
qed

text \<open>
  So a call of \<^verbatim>\<open>chargePoint\<close> or \<^verbatim>\<open>usePoint\<close> made with no other
  call in flight returns what its closure returns on the tables.
\<close>

lemma call_alone_chargePoint:
  "call_alone d now (chargePoint u a) = Some (chargePoint_op d u a now now now)"
  by (simp add: call_alone_operation chargePoint_def withLock_def operation_def)

lemma call_alone_usePoint:
  "call_alone d now (usePoint u a) = Some (usePoint_op d u a now now now)"
  by (simp add: call_alone_operation usePoint_def withLock_def operation_def)

section \<open>The segments of a call, in any run\<close>

text \<open>
  However the calls interleave, and whether timers fire or not, every call is
  where \<open>shape\<close> says.
\<close>

lemma outcome_pc [simp]: "outcome (c\<lparr>pc := q'\<rparr>) r = outcome c r"
  by (cases r) simp_all

lemma shape_pc [simp]: "shape (c\<lparr>pc := q'\<rparr>) q = shape c q"
  by (cases q) simp_all

lemma shaped_run_call:
  assumes inv: "shaped s" and i: "i < length (calls s)" and run: "run_call s i = Some s'"
  shows "shaped s'"
proof -
  from run obtain q where calls: "calls s' = (calls s)[i := (calls s ! i)\<lparr>pc := q\<rparr>]"
    using run_call_calls by blast
  then have q: "q = pc (calls s' ! i)" using i by simp
  from inv i have "shape (calls s ! i) (pc (calls s ! i))" by (simp add: shaped_def)
  with run i have new: "shape (calls s ! i) q"
    unfolding q
    by (cases "pc (calls s ! i)")
      (auto simp: run_call_def loop_check_def acquire_fields selected_def put_done_def
        inserted_def finally_block_def Let_def
        split: option.splits if_splits TransactionType.splits)
  show ?thesis
    unfolding shaped_def
  proof (intro allI impI)
    fix j
    assume j: "j < length (calls s')"
    show "shape (calls s' ! j) (pc (calls s' ! j))"
    proof (cases "j = i")
      case True
      with calls i new show ?thesis by simp
    next
      case False
      with calls j inv show ?thesis by (simp add: shaped_def)
    qed
  qed
qed

lemma shaped_step: "shaped s \<Longrightarrow> step e s = Some s' \<Longrightarrow> shaped s'"
proof (cases e)
  case (Run i)
  assume "shaped s" "step e s = Some s'"
  with Run show ?thesis by (auto simp: shaped_run_call split: if_splits)
next
  case (Fire tm)
  assume "shaped s" "step e s = Some s'"
  with Fire show ?thesis by (auto simp: fire_def shaped_def split: option.splits if_splits)
next
  case (Tick n)
  assume "shaped s" "step e s = Some s'"
  with Tick show ?thesis by (auto simp: shaped_def)
qed

lemma shaped_exec: "shaped s \<Longrightarrow> exec es s = Some s' \<Longrightarrow> shaped s'"
proof (induction es arbitrary: s)
  case Nil
  then show ?case by simp
next
  case (Cons e es)
  then obtain s1 where 1: "step e s = Some s1" and 2: "exec es s1 = Some s'"
    by (auto split: option.splits)
  from shaped_step [OF Cons.prems(1) 1] have "shaped s1" .
  from Cons.IH [OF this 2] show ?case .
qed

lemma shaped_init: "list_all (\<lambda>c. pc c = Start) cs \<Longrightarrow> shaped (init d now cs)"
  by (simp add: shaped_def init_def list_all_length)

text \<open>
  A segment after which its call has not written leaves the tables as they
  are, and the call had not written before it either.
\<close>

lemma run_call_unwritten:
  assumes "i < length (calls s)" and "run_call s i = Some s'"
    and "unwritten (pc (calls s' ! i))"
  shows "unwritten (pc (calls s ! i)) \<and> tables s' = tables s"
proof (cases "pc (calls s ! i)")
  case (Finishing p r)
  with assms show ?thesis
    by (cases r) (auto simp: run_call_def finally_block_def Let_def)
qed (use assms in \<open>auto simp: run_call_def loop_check_def acquire_fields selected_def
      put_done_def inserted_def Let_def split: option.splits if_splits TransactionType.splits\<close>)

lemma step_unwritten_back:
  assumes "step e s = Some s'" and "unwritten (pc (calls s' ! i))"
  shows "unwritten (pc (calls s ! i))"
proof (cases e)
  case (Run j)
  with assms(1) have j: "j < length (calls s)" and run: "run_call s j = Some s'"
    by (simp_all split: if_splits)
  show ?thesis
  proof (cases "j = i")
    case True
    with run_call_unwritten [OF j run] assms(2) show ?thesis by simp
  next
    case False
    from run obtain q where "calls s' = (calls s)[j := (calls s ! j)\<lparr>pc := q\<rparr>]"
      using run_call_calls by blast
    with False assms(2) show ?thesis by simp
  qed
next
  case (Fire tm)
  with assms show ?thesis by (auto simp: fire_def split: option.splits if_splits)
next
  case (Tick n)
  with assms show ?thesis by auto
qed

lemma exec_unwritten_back:
  "exec es s = Some s' \<Longrightarrow> unwritten (pc (calls s' ! i)) \<Longrightarrow> unwritten (pc (calls s ! i))"
proof (induction es arbitrary: s)
  case Nil
  then show ?case by simp
next
  case (Cons e es)
  then obtain s1 where 1: "step e s = Some s1" and 2: "exec es s1 = Some s'"
    by (auto split: option.splits)
  from Cons.IH [OF 2 Cons.prems(2)] have "unwritten (pc (calls s1 ! i))" .
  with 1 show ?case by (rule step_unwritten_back)
qed

text \<open>
  The log grows by one entry in one segment only, the one in which a call
  resumes after \<^verbatim>\<open>insert\<close>: so it has one entry for each call whose
  operation has returned a record, and no other new entry.
\<close>

lemma entries_update:
  "i < length cs \<Longrightarrow>
   entries (cs[i := (cs ! i)\<lparr>pc := q\<rparr>]) + (if appended (pc (cs ! i)) then 1 else 0) =
   entries cs + (if appended q then 1 else 0)"
  unfolding entries_def
  using sum_list_map_update [of i cs "\<lambda>c. if appended (pc c) then 1 else 0 :: nat" "(cs ! i)\<lparr>pc := q\<rparr>"]
  by simp

lemma appended_Finishing_Done: "appended (Finishing p r) = appended (Done r)"
  by (cases r) simp_all

lemma run_call_history:
  assumes "run_call s i = Some s'" and "i < length (calls s)"
  shows "length (pointHistoryTable (tables s')) + entries (calls s) =
         length (pointHistoryTable (tables s)) + entries (calls s')"
proof -
  from assms(1) obtain q where calls: "calls s' = (calls s)[i := (calls s ! i)\<lparr>pc := q\<rparr>]"
    using run_call_calls by blast
  then have q: "q = pc (calls s' ! i)" using assms(2) by simp
  have "length (pointHistoryTable (tables s')) + (if appended (pc (calls s ! i)) then 1 else 0) =
        length (pointHistoryTable (tables s)) + (if appended q then 1 else 0)"
    unfolding q using assms
    by (cases "pc (calls s ! i)")
      (auto simp: run_call_def loop_check_def acquire_fields selected_def put_done_def
        inserted_def finally_block_def Let_def insert_history_def appended_Finishing_Done
        split: option.splits if_splits TransactionType.splits)
  with entries_update [OF assms(2), of q] calls show ?thesis by simp
qed

lemma step_history:
  assumes "step e s = Some s'"
  shows "length (pointHistoryTable (tables s')) + entries (calls s) =
         length (pointHistoryTable (tables s)) + entries (calls s')"
proof (cases e)
  case (Run i)
  with assms show ?thesis by (auto simp: run_call_history split: if_splits)
next
  case (Fire tm)
  with assms show ?thesis by (auto simp: fire_def split: option.splits if_splits)
next
  case (Tick n)
  with assms show ?thesis by auto
qed

lemma exec_history:
  "exec es s = Some s' \<Longrightarrow>
   length (pointHistoryTable (tables s')) + entries (calls s) =
   length (pointHistoryTable (tables s)) + entries (calls s')"
proof (induction es arbitrary: s)
  case Nil
  then show ?case by simp
next
  case (Cons e es)
  then obtain s1 where 1: "step e s = Some s1" and 2: "exec es s1 = Some s'"
    by (auto split: option.splits)
  from Cons.IH [OF 2] step_history [OF 1] show ?case by linarith
qed

lemma one_entry_per_record:
  assumes "list_all (\<lambda>c. pc c = Start) cs" and "exec es (init d now cs) = Some s"
  shows "length (pointHistoryTable (tables s)) = length (pointHistoryTable d) + entries (calls s)"
proof -
  from assms(1) have "entries cs = 0"
    by (induction cs) (simp_all add: entries_def)
  with exec_history [OF assms(2)] show ?thesis by (simp add: init_def)
qed

text \<open>A call inside its critical section can always go on.\<close>

lemma holder_not_blocked:
  "i < length (calls s) \<Longrightarrow> inCS (pc (calls s ! i)) \<Longrightarrow> \<exists>s'. step (Run i) s = Some s'"
  by (cases "pc (calls s ! i)") (simp_all add: run_call_def)

text \<open>
  A segment of call \<open>i\<close> in a run of calls yet to be made: the states
  before and after it, and what is known of them.
\<close>

lemma segment:
  assumes fresh: "list_all (\<lambda>c. pc c = Start) cs"
    and run: "exec (es1 @ Run i # es2) (init d now cs) = Some s"
  shows "\<exists>s1 s2. exec es1 (init d now cs) = Some s1 \<and> step (Run i) s1 = Some s2
    \<and> exec es2 s2 = Some s
    \<and> i < length (calls s1) \<and> run_call s1 i = Some s2
    \<and> kind (calls s1 ! i) = kind (cs ! i) \<and> user (calls s1 ! i) = user (cs ! i)
    \<and> amt (calls s1 ! i) = amt (cs ! i)
    \<and> shape (calls s1 ! i) (pc (calls s1 ! i))
    \<and> shape (calls s1 ! i) (pc (calls s ! i))
    \<and> (\<not> hold_timeout_fires es1 \<longrightarrow>
           held_ok (balance (tables s1) (user (cs ! i))) (calls s1 ! i) (pc (calls s1 ! i)))
    \<and> (unwritten (pc (calls s ! i)) \<longrightarrow> tables s2 = tables s1)
    \<and> (inCS (pc (calls s2 ! i)) \<longrightarrow> (\<exists>s3. step (Run i) s2 = Some s3))"
proof -
  from run obtain s1 s2 where 1: "exec es1 (init d now cs) = Some s1"
    and 2: "step (Run i) s1 = Some s2" and 3: "exec es2 s2 = Some s"
    by (auto simp: exec_append split: option.splits)
  from 2 have i: "i < length (calls s1)" and r: "run_call s1 i = Some s2"
    by (simp_all split: if_splits)
  from exec_static [OF 1] have m: "map static (calls s1) = map static cs"
    by (simp add: init_def)
  then have "length (calls s1) = length cs" by (metis length_map)
  with m i have "static (calls s1 ! i) = static (cs ! i)" by (metis nth_map)
  then have same: "kind (calls s1 ! i) = kind (cs ! i)" "user (calls s1 ! i) = user (cs ! i)"
    "amt (calls s1 ! i) = amt (cs ! i)"
    by (simp_all add: static_def)
  from exec_static [OF run] m have "map static (calls s) = map static (calls s1)"
    by (simp add: init_def)
  moreover from this have "length (calls s) = length (calls s1)" by (metis length_map)
  ultimately have "static (calls s ! i) = static (calls s1 ! i)" using i by (metis nth_map)
  then have same': "kind (calls s ! i) = kind (calls s1 ! i)"
    "user (calls s ! i) = user (calls s1 ! i)" "amt (calls s ! i) = amt (calls s1 ! i)"
    by (simp_all add: static_def)
  from shaped_init [OF fresh] 1 have sh1: "shaped s1" by (rule shaped_exec)
  from shaped_init [OF fresh] run have sh: "shaped s" by (rule shaped_exec)
  from sh1 i have a: "shape (calls s1 ! i) (pc (calls s1 ! i))" by (simp add: shaped_def)
  from sh i \<open>length (calls s) = length (calls s1)\<close>
  have "shape (calls s ! i) (pc (calls s ! i))" by (simp add: shaped_def)
  with same' have b: "shape (calls s1 ! i) (pc (calls s ! i))"
    by (cases "pc (calls s ! i)"; cases "case pc (calls s ! i) of Finishing p r \<Rightarrow> r | Done r \<Rightarrow> r")
      simp_all
  have c: "held_ok (balance (tables s1) (user (cs ! i))) (calls s1 ! i) (pc (calls s1 ! i))"
    if "\<not> hold_timeout_fires es1"
  proof -
    from exclusive_init [OF fresh] 1 that have "exclusive (user (cs ! i)) s1"
      by (rule exclusive_exec)
    from exclusive_held_ok [OF this i same(2)] show ?thesis .
  qed
  have e: "tables s2 = tables s1" if "unwritten (pc (calls s ! i))"
  proof -
    from 3 that have "unwritten (pc (calls s2 ! i))" by (rule exec_unwritten_back)
    with run_call_unwritten [OF i r] show ?thesis by simp
  qed
  have f: "\<exists>s3. step (Run i) s2 = Some s3" if "inCS (pc (calls s2 ! i))"
  proof -
    from r obtain q where "calls s2 = (calls s1)[i := (calls s1 ! i)\<lparr>pc := q\<rparr>]"
      using run_call_calls by blast
    with i have "i < length (calls s2)" by simp
    from this that show ?thesis by (rule holder_not_blocked)
  qed
  from 1 2 3 i r same a b c e f show ?thesis by blast
qed







text \<open>
  C4, as the code has it.  Take a call of \<^verbatim>\<open>chargePoint\<close> or of
  \<^verbatim>\<open>usePoint\<close> with an amount of 0 or less, in any run, and any of its
  segments.  The segment leaves the tables as they are.  It is a test of the
  wait loop, after which the call goes on waiting, or has the key and its
  operation has thrown the exception for the amount, or has failed with the
  error of the lock manager, the key being held; or it is the
  \<^verbatim>\<open>finally\<close> block after that exception.  The amount is tested inside
  the critical section only.  The call never returns a record: it ends with
  the exception for the amount or with the error of the lock manager.  A call
  that has the key is not blocked: its \<^verbatim>\<open>finally\<close> block can run.
  The log has one new entry for each call whose operation has returned a
  record, and no other.  And a call made with no other call in flight throws
  the exception for the amount and leaves the tables as they are.
\<close>

theorem invalid_amount_in_every_run:
  assumes "list_all (\<lambda>c. pc c = Start) cs"
    and "exec (es1 @ Run i # es2) (init d now cs) = Some s"
    and "kind (cs ! i) = k" and "user (cs ! i) = u" and "amt (cs ! i) = a" and "a \<le> 0"
  shows "(\<exists>s1 s2. exec es1 (init d now cs) = Some s1 \<and> step (Run i) s1 = Some s2
           \<and> exec es2 s2 = Some s
           \<and> tables s2 = tables s1
           \<and> (\<forall>r. pc (calls s ! i) = Done r \<longrightarrow>
                 r = Inl (invalid_amount k) \<or> r = Inl (LockTimeout (user_key u)))
           \<and> (inCS (pc (calls s2 ! i)) \<longrightarrow> (\<exists>s3. step (Run i) s2 = Some s3))
           \<and> (case pc (calls s1 ! i) of
                 Selecting p \<Rightarrow> False
               | Putting p n t \<Rightarrow> False
               | Inserting p n t \<Rightarrow> False
               | Finishing p r \<Rightarrow> r = Inl (invalid_amount k) \<and> pc (calls s2 ! i) = Done r
               | Done r \<Rightarrow> False
               | _ \<Rightarrow>
                   (case pc (calls s2 ! i) of
                      Waiting m p \<Rightarrow> locks s1 (user_key u) = Some p
                    | Finishing p r \<Rightarrow> r = Inl (invalid_amount k)
                        \<and> locks s1 (user_key u) = None
                    | Done r \<Rightarrow> r = Inl (LockTimeout (user_key u))
                        \<and> locks s1 (user_key u) \<noteq> None
                    | _ \<Rightarrow> False)))
       \<and> length (pointHistoryTable (tables s)) =
           length (pointHistoryTable d) + entries (calls s)
       \<and> call_alone d now (chargePoint u a) =
           Some (Inl (BadRequestException ChargeAmountNotPositive), d)
       \<and> call_alone d now (usePoint u a) =
           Some (Inl (BadRequestException UseAmountNotPositive), d)"
    (is "?run \<and> ?count \<and> ?alone")
proof -
  from segment [OF assms(1,2)] obtain s1 s2 where 1: "exec es1 (init d now cs) = Some s1"
    and 2: "step (Run i) s1 = Some s2" and 3: "exec es2 s2 = Some s"
    and i: "i < length (calls s1)" and r: "run_call s1 i = Some s2"
    and k: "kind (calls s1 ! i) = kind (cs ! i)" "user (calls s1 ! i) = user (cs ! i)"
      "amt (calls s1 ! i) = amt (cs ! i)"
    and sh: "shape (calls s1 ! i) (pc (calls s1 ! i))"
    and she: "shape (calls s1 ! i) (pc (calls s ! i))"
    and go: "inCS (pc (calls s2 ! i)) \<longrightarrow> (\<exists>s3. step (Run i) s2 = Some s3)"
    by blast
  note k' = k(1,2) [unfolded assms(3,4)]
  from k(3) assms(5,6) have neg: "amt (calls s1 ! i) \<le> 0" by simp
  have fail: "\<forall>r. pc (calls s ! i) = Done r \<longrightarrow>
                 r = Inl (invalid_amount k) \<or> r = Inl (LockTimeout (user_key u))"
  proof (intro allI impI)
    fix x
    assume "pc (calls s ! i) = Done x"
    with she k' neg show "x = Inl (invalid_amount k) \<or> x = Inl (LockTimeout (user_key u))"
      by (cases x) auto
  qed
  have same: "tables s2 = tables s1"
    using r i sh neg
    by (cases "pc (calls s1 ! i)")
      (auto simp: run_call_def loop_check_def Let_def acquire_fields finally_block_def
        split: option.splits if_splits)
  have main: "case pc (calls s1 ! i) of
                 Selecting p \<Rightarrow> False
               | Putting p n t \<Rightarrow> False
               | Inserting p n t \<Rightarrow> False
               | Finishing p r \<Rightarrow> r = Inl (invalid_amount k) \<and> pc (calls s2 ! i) = Done r
               | Done r \<Rightarrow> False
               | _ \<Rightarrow>
                   (case pc (calls s2 ! i) of
                      Waiting m p \<Rightarrow> locks s1 (user_key u) = Some p
                    | Finishing p r \<Rightarrow> r = Inl (invalid_amount k)
                        \<and> locks s1 (user_key u) = None
                    | Done r \<Rightarrow> r = Inl (LockTimeout (user_key u))
                        \<and> locks s1 (user_key u) \<noteq> None
                    | _ \<Rightarrow> False)"
  proof (cases "pc (calls s1 ! i)")
    case Start
    with r i k' neg show ?thesis
      by (auto simp: run_call_def loop_check_def Let_def acquire_fields split: option.splits)
  next
    case (Waiting m p)
    with r i k' neg show ?thesis
      by (auto simp: run_call_def loop_check_def Let_def acquire_fields
          split: option.splits if_splits)
  next
    case (Finishing p x)
    with r i k' sh neg show ?thesis
      by (cases x) (auto simp: run_call_def finally_block_def Let_def)
  next
    case (Done x)
    with r show ?thesis by (simp add: run_call_def)
  qed (use sh neg in auto)
  from 1 2 3 same fail go main have run: ?run by blast
  from assms(6) have alone: ?alone
    by (simp add: call_alone_chargePoint call_alone_usePoint chargePoint_op_def usePoint_op_def)
  from assms(1,2) have count: ?count by (rule one_entry_per_record)
  from count alone have "?count \<and> ?alone" by (rule conjI)
  with run show ?thesis by (rule conjI)
qed

theorem invalid_amount_in_every_run_witness:
  "\<exists>s2. step (Run 0) (init empty_db 10 [chargePoint 1 (- 1000)]) = Some s2
     \<and> tables s2 = empty_db
     \<and> pc (calls s2 ! 0) = Finishing 0 (Inl (BadRequestException ChargeAmountNotPositive))
     \<and> map_option (\<lambda>s. (pc (calls s ! 0), pointHistoryTable (tables s))) (exec [Run 0] s2) =
         Some (Done (Inl (BadRequestException ChargeAmountNotPositive)), [])"
proof -
  let ?cs = "[chargePoint 1 (- 1000)]"
  have fresh: "list_all (\<lambda>c. pc c = Start) ?cs"
    by (simp add: chargePoint_def withLock_def)
  have call: "kind (?cs ! 0) = CHARGE" "user (?cs ! 0) = 1" "amt (?cs ! 0) = - 1000"
    "- 1000 \<le> (0::int)"
    by (simp_all add: chargePoint_def withLock_def)
  have "exec ([] @ Run 0 # [Run 0]) (init empty_db 10 ?cs) \<noteq> None" by code_simp
  then obtain s where run: "exec ([] @ Run 0 # [Run 0]) (init empty_db 10 ?cs) = Some s"
    by auto
  have at: "map_option (\<lambda>s. (pc (calls s ! 0),
                map_option (\<lambda>s. (pc (calls s ! 0), pointHistoryTable (tables s)))
                  (exec [Run 0] s)))
              (step (Run 0) (init empty_db 10 ?cs)) =
            Some (Finishing 0 (Inl (BadRequestException ChargeAmountNotPositive)),
              Some (Done (Inl (BadRequestException ChargeAmountNotPositive)), []))"
    by code_simp
  from invalid_amount_in_every_run [OF fresh run call]
  obtain s1 s2 where 1: "exec [] (init empty_db 10 ?cs) = Some s1"
    and 2: "step (Run 0) s1 = Some s2" and same: "tables s2 = tables s1"
    by blast
  from 1 have s1: "s1 = init empty_db 10 ?cs" by simp
  with same have "tables s2 = empty_db" by (simp add: init_def)
  with at 2 s1 show ?thesis by auto
qed

text \<open>
  C4, as the claim has it, fails.  In the run of four calls above, with a
  charge of 0 for the fourth, that charge fails with the error of the lock
  manager, not with the exception for the amount: it never had the key, and its
  amount was never tested.
\<close>

theorem invalid_amount_lock_timeout_counterexample:
  "map_option (\<lambda>s. (pc (calls s ! 3), hold_timeout_fires
        [Run 0, Run 1, Run 2, Run 3, Tick 3000, Run 0, Run 0, Run 0, Run 0, Run 1, Run 2, Run 3,
         Tick 3000, Run 1, Run 1, Run 1, Run 1, Run 2, Run 3]))
     (exec [Run 0, Run 1, Run 2, Run 3, Tick 3000, Run 0, Run 0, Run 0, Run 0, Run 1, Run 2, Run 3,
            Tick 3000, Run 1, Run 1, Run 1, Run 1, Run 2, Run 3]
        (init empty_db 0 [chargePoint 1 10, chargePoint 1 20, chargePoint 1 30, chargePoint 1 0]))
     = Some (Done (Inl (LockTimeout ''user:1'')), False)
   \<and> invalid_amount CHARGE \<noteq> LockTimeout ''user:1''"
  by code_simp

section \<open>The time stamp of an accepted call\<close>

text \<open>
  C10.  When a charge or a use returns a record, the entry it has appended to
  the log carries the time stamp of that record: the one reading \<open>t1\<close>
  of the clock by the closure, whatever the readings of the store are.
\<close>

theorem operation_one_timestamp:
  "(operation k d u a t0 t1 t2 = (Inr r, d') \<longrightarrow>
      (\<exists>h. pointHistoryTable d' = pointHistoryTable d @ [h]
         \<and> timeMillis h = updateMillis r \<and> updateMillis r = t1))
   \<and> (call_alone d now (withLock k u a ms) = Some (Inr r, d') \<longrightarrow>
      (\<exists>h. pointHistoryTable d' = pointHistoryTable d @ [h]
         \<and> timeMillis h = updateMillis r))"
proof (intro conjI impI)
  assume "operation k d u a t0 t1 t2 = (Inr r, d')"
  then show "\<exists>h. pointHistoryTable d' = pointHistoryTable d @ [h]
         \<and> timeMillis h = updateMillis r \<and> updateMillis r = t1"
    by (rule operation_timestamp)
next
  assume "call_alone d now (withLock k u a ms) = Some (Inr r, d')"
  then have "operation k d u a now now now = (Inr r, d')"
    by (simp add: call_alone_operation withLock_def)
  from operation_timestamp [OF this]
  show "\<exists>h. pointHistoryTable d' = pointHistoryTable d @ [h] \<and> timeMillis h = updateMillis r"
    by blast
qed

theorem operation_one_timestamp_witness:
  "(\<exists>r d'. operation CHARGE empty_db 1 1000 10 11 12 = (Inr r, d')
      \<and> (\<exists>h. pointHistoryTable d' = pointHistoryTable empty_db @ [h]
            \<and> timeMillis h = updateMillis r \<and> updateMillis r = 11))
   \<and> (\<exists>r d'. call_alone empty_db 11 (withLock CHARGE 1 1000 5000) = Some (Inr r, d')
      \<and> (\<exists>h. pointHistoryTable d' = pointHistoryTable empty_db @ [h]
            \<and> timeMillis h = updateMillis r))"
proof -
  let ?r = "\<lparr>uid = 1, point = 1000, updateMillis = 11\<rparr>"
  let ?d = "snd (operation CHARGE empty_db 1 1000 10 11 12)"
  let ?d' = "snd (operation CHARGE empty_db 1 1000 11 11 11)"
  have run: "operation CHARGE empty_db 1 1000 10 11 12 = (Inr ?r, ?d)"
    by (simp add: operation_def chargePoint_op_def Let_def point_selectById js_add_def
        round53_def)
  have "operation CHARGE empty_db 1 1000 11 11 11 = (Inr ?r, ?d')"
    by (simp add: operation_def chargePoint_op_def Let_def point_selectById js_add_def
        round53_def)
  then have alone: "call_alone empty_db 11 (withLock CHARGE 1 1000 5000) = Some (Inr ?r, ?d')"
    by (simp add: call_alone_operation withLock_def)
  from operation_one_timestamp [of CHARGE empty_db 1 1000 10 11 12 ?r ?d 11 5000] run
  have 1: "\<exists>h. pointHistoryTable ?d = pointHistoryTable empty_db @ [h]
          \<and> timeMillis h = updateMillis ?r \<and> updateMillis ?r = 11"
    by blast
  from operation_one_timestamp [of CHARGE empty_db 1 1000 11 11 11 ?r ?d' 11 5000] alone
  have 2: "\<exists>h. pointHistoryTable ?d' = pointHistoryTable empty_db @ [h]
          \<and> timeMillis h = updateMillis ?r"
    by blast
  from run 1 alone 2 show ?thesis by blast
qed

section \<open>One reading of the clock per call\<close>

text \<open>
  In the run of calls as well, the entry a call appends to the log and the
  record it returns carry the same time stamp, and that is the clock at the
  moment the closure resumed after \<^verbatim>\<open>selectById\<close>.
\<close>

lemma inserted_one_timestamp:
  assumes "i < length (calls s)" and "pc (calls s ! i) = Inserting p n t"
  shows "\<exists>s' h r. step (Run i) s = Some s'
           \<and> pointHistoryTable (tables s') = pointHistoryTable (tables s) @ [h]
           \<and> pc (calls s' ! i) = Finishing p (Inr r)
           \<and> timeMillis h = t \<and> updateMillis r = t"
  using assms by (simp add: run_call_def inserted_def Let_def insert_history_def)

lemma selected_reads_clock_once:
  assumes "i < length (calls s)" and "pc (calls s ! i) = Selecting p"
    and "step (Run i) s = Some s'" and "pc (calls s' ! i) = Putting p' n t"
  shows "t = clock s"
  using assms
  by (auto simp: run_call_def selected_def Let_def split: TransactionType.splits if_splits)

section \<open>No balance below zero\<close>

lemma nonneg_update:
  assumes "nonneg u s" and "i < length (calls s)"
    and "calls s' = (calls s)[i := (calls s ! i)\<lparr>pc := q\<rparr>]"
    and "0 \<le> balance (tables s') u"
    and "user (calls s ! i) = u \<Longrightarrow> safe_pc (amt (calls s ! i)) q"
  shows "nonneg u s'"
  unfolding nonneg_def
proof (intro conjI allI impI)
  show "0 \<le> balance (tables s') u" by fact
next
  fix j
  assume j: "j < length (calls s')" and u: "user (calls s' ! j) = u"
  show "safe_pc (amt (calls s' ! j)) (pc (calls s' ! j))"
  proof (cases "j = i")
    case True
    with assms(2,3,5) u show ?thesis by simp
  next
    case False
    with assms(1,3) j u show ?thesis by (simp add: nonneg_def)
  qed
qed

lemma nonneg_run_call:
  assumes inv: "nonneg u s" and i: "i < length (calls s)" and run: "run_call s i = Some s'"
  shows "nonneg u s'"
proof -
  from inv have b: "0 \<le> balance (tables s) u" by (simp add: nonneg_def)
  from inv i have at: "user (calls s ! i) = u \<Longrightarrow>
      safe_pc (amt (calls s ! i)) (pc (calls s ! i))"
    by (simp add: nonneg_def)
  from run obtain q where calls: "calls s' = (calls s)[i := (calls s ! i)\<lparr>pc := q\<rparr>]"
    using run_call_calls by blast
  then have q: "q = pc (calls s' ! i)" using i by simp
  show ?thesis
  proof (rule nonneg_update [OF inv i calls])
    show "0 \<le> balance (tables s') u"
      using run b at
      by (auto simp: run_call_def loop_check_def acquire_fields selected_def put_done_def
          inserted_def finally_block_def Let_def balance_insertOrUpdate
          split: pc.splits option.splits if_splits TransactionType.splits)
    show "safe_pc (amt (calls s ! i)) q" if "user (calls s ! i) = u"
      unfolding q using run b at [OF that] i that
      by (auto simp: run_call_def loop_check_def acquire_fields selected_def put_done_def
          inserted_def finally_block_def Let_def point_selectById js_add_nonneg js_sub_nonneg
          split: pc.splits option.splits if_splits TransactionType.splits)
  qed
qed

lemma nonneg_step: "nonneg u s \<Longrightarrow> step e s = Some s' \<Longrightarrow> nonneg u s'"
proof (cases e)
  case (Run i)
  assume "nonneg u s" "step e s = Some s'"
  with Run show ?thesis by (auto simp: nonneg_run_call split: if_splits)
next
  case (Fire tm)
  assume "nonneg u s" "step e s = Some s'"
  with Fire show ?thesis by (auto simp: fire_def nonneg_def split: option.splits if_splits)
next
  case (Tick n)
  assume "nonneg u s" "step e s = Some s'"
  with Tick show ?thesis by (auto simp: nonneg_def)
qed

lemma nonneg_exec: "nonneg u s \<Longrightarrow> exec es s = Some s' \<Longrightarrow> nonneg u s'"
proof (induction es arbitrary: s)
  case Nil
  then show ?case by simp
next
  case (Cons e es)
  then obtain s1 where 1: "step e s = Some s1" and 2: "exec es s1 = Some s'"
    by (auto split: option.splits)
  from nonneg_step [OF Cons.prems(1) 1] have "nonneg u s1" .
  from Cons.IH [OF this 2] show ?case .
qed

lemma nonneg_init:
  "0 \<le> balance d u \<Longrightarrow> list_all (\<lambda>c. pc c = Start) cs \<Longrightarrow> nonneg u (init d now cs)"
  by (simp add: nonneg_def init_def list_all_length)

text \<open>
  C5.  A stored balance that is not negative stays so: after any sequence of
  charge and use requests, accepted or rejected, of any users; and in every
  state that calls of \<^verbatim>\<open>chargePoint\<close> and \<^verbatim>\<open>usePoint\<close> reach,
  however they interleave, and also when hold timers fire.
\<close>

theorem balance_never_negative:
  assumes "0 \<le> balance d u"
  shows "0 \<le> balance (foldl run_request d rs) u
       \<and> (list_all (\<lambda>c. pc c = Start) cs \<longrightarrow> exec es (init d now cs) = Some s \<longrightarrow>
            0 \<le> balance (tables s) u)"
proof (intro conjI impI)
  from assms show "0 \<le> balance (foldl run_request d rs) u" by (rule run_requests_nonneg)
next
  assume "list_all (\<lambda>c. pc c = Start) cs" and run: "exec es (init d now cs) = Some s"
  with assms have "nonneg u (init d now cs)" by (simp add: nonneg_init)
  from this run have "nonneg u s" by (rule nonneg_exec)
  then show "0 \<le> balance (tables s) u" by (simp add: nonneg_def)
qed

theorem balance_never_negative_witness:
  "0 \<le> balance empty_db 1
   \<and> 0 \<le> balance (foldl run_request empty_db
          [(CHARGE, 1, 100, 1, 1, 2), (USE, 1, 500, 3, 3, 4), (USE, 1, 100, 5, 5, 6)]) 1
   \<and> (\<exists>s. exec [Run 0, Run 1, Run 0, Tick 5000, Fire 0, Run 1, Run 0, Run 1, Run 0, Run 1,
                  Run 1, Run 1, Run 0]
            (init empty_db 0 [chargePoint 1 100, usePoint 1 50]) = Some s
          \<and> 0 \<le> balance (tables s) 1)"
proof -
  let ?cs = "[chargePoint 1 100, usePoint 1 50]"
  let ?es = "[Run 0, Run 1, Run 0, Tick 5000, Fire 0, Run 1, Run 0, Run 1, Run 0, Run 1,
              Run 1, Run 1, Run 0]"
  have b: "0 \<le> balance empty_db 1" by simp
  have fresh: "list_all (\<lambda>c. pc c = Start) ?cs"
    by (simp add: chargePoint_def usePoint_def withLock_def)
  have "exec ?es (init empty_db 0 ?cs) \<noteq> None" by code_simp
  then obtain s where run: "exec ?es (init empty_db 0 ?cs) = Some s" by auto
  from balance_never_negative [OF b, of
      "[(CHARGE, 1, 100, 1, 1, 2), (USE, 1, 500, 3, 3, 4), (USE, 1, 100, 5, 5, 6)]"
      ?cs ?es 0 s] fresh run b
  show ?thesis by blast
qed

end
